theory Spec2Isabelle
  imports Complex_Main "HOL-Library.Sublist" "HOL-Library.Multiset"
begin

section \<open>Errors and settled promises\<close>

text \<open>
  The error classes of \<^verbatim>\<open>core/errors\<close> that the verified code distinguishes with
  \<^verbatim>\<open>instanceof\<close>; every other error is \<open>OtherError\<close> with its message.
  A settled promise is a value of \<open>kerror + 'a\<close>: \<open>Inl e\<close> is a rejection with \<open>e\<close>,
  \<open>Inr v\<close> a resolution with \<open>v\<close>.
\<close>

datatype kerror =
    KinveyError
  | NotFoundError
  | SyncError
  | InvalidCachedQuery
  | InvalidCredentialsError
  | OtherError string

section \<open>Plain JavaScript objects used as dictionaries\<close>

text \<open>
  \<^verbatim>\<open>pushTrackingByCollection = {}\<close> and the result of lodash \<^verbatim>\<open>keyBy\<close> are plain
  objects. Their own enumerable properties are kept as an association list in insertion
  order. A read \<^verbatim>\<open>obj[k]\<close> that finds no own property continues in
  \<^verbatim>\<open>Object.prototype\<close>, whose members are all truthy (functions, and the prototype
  itself for \<^verbatim>\<open>__proto__\<close>); \<^verbatim>\<open>delete obj[k]\<close> removes own properties only.
\<close>

type_synonym 'v jsobj = "(string \<times> 'v) list"

datatype 'v jsprop = Own 'v | Inherited string | Undefined

definition Object_prototype_keys :: "string list" where
  "Object_prototype_keys =
     [''constructor'', ''hasOwnProperty'', ''isPrototypeOf'', ''propertyIsEnumerable'',
      ''toLocaleString'', ''toString'', ''valueOf'', ''__proto__'',
      ''__defineGetter__'', ''__defineSetter__'', ''__lookupGetter__'', ''__lookupSetter__'']"

definition obj_get :: "'v jsobj \<Rightarrow> string \<Rightarrow> 'v jsprop" where
  "obj_get obj k =
     (case map_of obj k of
        Some v \<Rightarrow> Own v
      | None \<Rightarrow> if k \<in> set Object_prototype_keys then Inherited k else Undefined)"

text \<open>\<^verbatim>\<open>obj[k] = v\<close>: an existing own property keeps its place, a new one goes last.\<close>

fun obj_put :: "'v jsobj \<Rightarrow> string \<Rightarrow> 'v \<Rightarrow> 'v jsobj" where
  "obj_put [] k v = [(k, v)]"
| "obj_put ((k', v') # r) k v = (if k' = k then (k, v) # r else (k', v') # obj_put r k v)"

definition obj_delete :: "'v jsobj \<Rightarrow> string \<Rightarrow> 'v jsobj" where
  "obj_delete obj k = filter (\<lambda>p. fst p \<noteq> k) obj"

text \<open>
  \<^verbatim>\<open>Object.keys\<close>: the array indices (canonical decimal strings below \<open>2^32 - 1\<close>) in
  ascending numeric order, then the other keys in insertion order.
\<close>

definition is_digit :: "char \<Rightarrow> bool" where
  "is_digit c = (48 \<le> (of_char c :: nat) \<and> (of_char c :: nat) \<le> 57)"

definition dec_val :: "string \<Rightarrow> int" where
  "dec_val s = foldl (\<lambda>n c. 10 * n + ((of_char c :: int) - 48)) 0 s"

definition is_array_index :: "string \<Rightarrow> bool" where
  "is_array_index s =
     (s \<noteq> [] \<and> list_all is_digit s \<and> (s = ''0'' \<or> hd s \<noteq> CHR ''0'')
      \<and> length s \<le> 10 \<and> dec_val s < 4294967295)"

definition Object_keys :: "'v jsobj \<Rightarrow> string list" where
  "Object_keys obj =
     (let ks = map fst obj
      in sort_key dec_val (filter is_array_index ks) @ filter (\<lambda>k. \<not> is_array_index k) ks)"

section \<open>Entities and stored values\<close>

text \<open>
  An entity is an open JSON object; the code inspects \<^verbatim>\<open>_id\<close> and \<^verbatim>\<open>_kmd.local\<close>
  only, the rest is the payload. \<open>eid = None\<close> is an entity without \<^verbatim>\<open>_id\<close>.
  An element of a persisted array is an entity or, after a read through the prototype
  chain was stored, a member of \<^verbatim>\<open>Object.prototype\<close> (which has no \<^verbatim>\<open>_id\<close>).
\<close>

record entity =
  eid :: "string option"
  kmd_local :: bool
  payload :: string

datatype jsval = Entity entity | ProtoMember string

fun jsval_id :: "jsval \<Rightarrow> string option" where
  "jsval_id (Entity e) = eid e"
| "jsval_id (ProtoMember m) = None"

text \<open>The property key a value is converted to: \<^verbatim>\<open>undefined\<close> becomes its name.\<close>

fun toPropertyKey :: "string option \<Rightarrow> string" where
  "toPropertyKey (Some s) = s"
| "toPropertyKey None = ''undefined''"

definition idKey :: "jsval \<Rightarrow> string" where
  "idKey v = toPropertyKey (jsval_id v)"

text \<open>lodash \<^verbatim>\<open>keyBy(array, '_id')\<close>: a later element overwrites an earlier one of the same key.\<close>

definition keyBy :: "jsval list \<Rightarrow> jsval jsobj" where
  "keyBy vs = fold (\<lambda>v obj. obj_put obj (idKey v) v) vs []"

text \<open>
  The data model's entity ids are 24-character hex strings (spec, section 3). An entity
  \<open>has_id\<close> when its \<^verbatim>\<open>_id\<close> is present; \<open>inherited_id\<close> holds of an entity whose
  \<^verbatim>\<open>_id\<close> is the name of a member of \<^verbatim>\<open>Object.prototype\<close>.
\<close>

definition is_hex :: "char \<Rightarrow> bool" where
  "is_hex c = (c \<in> set ''0123456789abcdefABCDEF'')"

definition entity_id_ok :: "string \<Rightarrow> bool" where
  "entity_id_ok s = (length s = 24 \<and> list_all is_hex s)"

definition has_id :: "entity \<Rightarrow> bool" where
  "has_id e = (eid e \<noteq> None)"

definition inherited_id :: "entity \<Rightarrow> bool" where
  "inherited_id e = (case eid e of Some i \<Rightarrow> i \<in> set Object_prototype_keys | None \<Rightarrow> False)"

section \<open>The key/value persister\<close>

text \<open>
  Modelled from the spec: the \<^verbatim>\<open>KeyValuePersister\<close> interface, whose implementations are
  not part of the sources (spec, section 2: byte/JSON-level read and write of opaque
  blobs keyed by string). It is a map from keys to persisted arrays; its operations
  succeed, reading a missing key yields \<^verbatim>\<open>undefined\<close> and deleting one changes
  nothing. A read returns a value of its own: changing it does not change what is
  persisted.
\<close>

type_synonym persister = "(string \<times> jsval list) list"

definition persister_read :: "persister \<Rightarrow> string \<Rightarrow> jsval list option" where
  "persister_read ps key = map_of ps key"

definition persister_write :: "persister \<Rightarrow> string \<Rightarrow> jsval list \<Rightarrow> persister" where
  "persister_write ps key es = obj_put ps key es"

definition persister_delete :: "persister \<Rightarrow> string \<Rightarrow> persister" where
  "persister_delete ps key = filter (\<lambda>p. fst p \<noteq> key) ps"

definition persister_getKeys :: "persister \<Rightarrow> string list" where
  "persister_getKeys ps = map fst ps"

section \<open>InmemoryOfflineRepository\<close>

text \<open>
  A leading underscore of a source name is written \<open>priv_\<close>. The app key
  (\<^verbatim>\<open>this._getAppKey()\<close>, defined in the base class) is a parameter. The promise queue
  runs every enqueued operation; the operations of one call are applied in the order
  they are enqueued.
\<close>

definition activeUserKey :: string where
  "activeUserKey = ''active_user''"

definition priv_formCollectionKey :: "string \<Rightarrow> string \<Rightarrow> string" where
  "priv_formCollectionKey appKey collection = appKey @ ''.'' @ collection"

definition priv_readAll :: "string \<Rightarrow> persister \<Rightarrow> string \<Rightarrow> jsval list" where
  "priv_readAll appKey ps collection =
     (case persister_read ps (priv_formCollectionKey appKey collection) of
        Some es \<Rightarrow> es
      | None \<Rightarrow> [])"

definition priv_saveAll :: "string \<Rightarrow> persister \<Rightarrow> string \<Rightarrow> jsval list \<Rightarrow> persister" where
  "priv_saveAll appKey ps collection es =
     persister_write ps (priv_formCollectionKey appKey collection) es"

subsection \<open>clear\<close>

definition priv_keyBelongsToApp :: "string \<Rightarrow> string \<Rightarrow> bool" where
  "priv_keyBelongsToApp appKey key = prefix appKey key"

definition priv_getCollectionFromKey :: "string \<Rightarrow> string \<Rightarrow> string" where
  "priv_getCollectionFromKey appKey key = drop (length (appKey @ ''.'')) key"

definition priv_getAllCollections :: "string \<Rightarrow> persister \<Rightarrow> string list" where
  "priv_getAllCollections appKey ps =
     map (priv_getCollectionFromKey appKey)
       (filter (priv_keyBelongsToApp appKey) (persister_getKeys ps))"

definition priv_deleteAll :: "string \<Rightarrow> persister \<Rightarrow> string \<Rightarrow> persister" where
  "priv_deleteAll appKey ps collection =
     (let key = priv_formCollectionKey appKey collection
      in if key \<noteq> appKey @ ''.'' @ activeUserKey then persister_delete ps key else ps)"

definition priv_clearCollections :: "string \<Rightarrow> persister \<Rightarrow> string list \<Rightarrow> bool \<times> persister" where
  "priv_clearCollections appKey ps collections =
     (True, fold (\<lambda>c ps'. priv_deleteAll appKey ps' c) collections ps)"

text \<open>
  \<^verbatim>\<open>clear(collection)\<close>: a missing or empty (falsy) collection name clears all
  collections of the app, a name clears that collection (\<^verbatim>\<open>ensureArray\<close> wraps it).
\<close>

definition clear :: "string \<Rightarrow> persister \<Rightarrow> string option \<Rightarrow> bool \<times> persister" where
  "clear appKey ps collection =
     (case collection of
        None \<Rightarrow> priv_clearCollections appKey ps (priv_getAllCollections appKey ps)
      | Some c \<Rightarrow>
          if c = [] then priv_clearCollections appKey ps (priv_getAllCollections appKey ps)
          else priv_clearCollections appKey ps [c])"

subsection \<open>update\<close>

text \<open>
  The \<^verbatim>\<open>forEach\<close> of \<^verbatim>\<open>_update\<close> over the stored array: a stored element whose
  \<^verbatim>\<open>_id\<close> reads a truthy value from \<^verbatim>\<open>updateEntitiesById\<close> while the counter is
  positive is overwritten with that value, the key is deleted and the counter decremented.
  The result is the new array, the remaining object and the remaining counter.
\<close>

fun replaceStored :: "jsval list \<Rightarrow> jsval jsobj \<Rightarrow> nat \<Rightarrow> jsval list \<times> jsval jsobj \<times> nat" where
  "replaceStored [] obj n = ([], obj, n)"
| "replaceStored (e # es) obj n =
     (case (if 0 < n then obj_get obj (idKey e) else Undefined) of
        Own v \<Rightarrow>
          (case replaceStored es (obj_delete obj (idKey e)) (n - 1) of
             (es', r) \<Rightarrow> (v # es', r))
      | Inherited m \<Rightarrow>
          (case replaceStored es (obj_delete obj (idKey e)) (n - 1) of
             (es', r) \<Rightarrow> (ProtoMember m # es', r))
      | Undefined \<Rightarrow>
          (case replaceStored es obj n of
             (es', r) \<Rightarrow> (e # es', r)))"

text \<open>The upsert part: the values of the remaining own keys, in \<^verbatim>\<open>Object.keys\<close> order.\<close>

definition remainingEntities :: "jsval jsobj \<Rightarrow> jsval list" where
  "remainingEntities obj = concat (map (\<lambda>k. case map_of obj k of Some v \<Rightarrow> [v] | None \<Rightarrow> []) (Object_keys obj))"

definition priv_update :: "string \<Rightarrow> persister \<Rightarrow> string \<Rightarrow> jsval list \<Rightarrow> persister" where
  "priv_update appKey ps collection entitiesArray =
     (case replaceStored (priv_readAll appKey ps collection) (keyBy entitiesArray) (length entitiesArray) of
        (allEntities, updateEntitiesById, unprocessedEntitiesCount) \<Rightarrow>
          priv_saveAll appKey ps collection
            (if 0 < unprocessedEntitiesCount
             then allEntities @ remainingEntities updateEntitiesById
             else allEntities))"

definition update :: "string \<Rightarrow> persister \<Rightarrow> string \<Rightarrow> jsval list \<Rightarrow> (kerror + jsval list) \<times> persister" where
  "update appKey ps collection entities = (Inr entities, priv_update appKey ps collection entities)"

subsection \<open>Queries\<close>

text \<open>
  Modelled from the spec: the \<^verbatim>\<open>Query\<close> class and \<^verbatim>\<open>applyQueryToDataset\<close> are not
  part of the sources. A query has a filter (a predicate on stored values), a sort (a
  rearrangement of the matching values), a skip (0 by default) and an optional limit;
  skip and limit apply after the sort (spec, sections 3 and 4.2). The projection
  \<^verbatim>\<open>fields\<close> is left out: it does not change which entities match. Numbers are
  integers in the exactly representable range.
\<close>

record query =
  filter_q :: "jsval \<Rightarrow> bool"
  sort_q :: "jsval list \<Rightarrow> jsval list"
  skip_q :: int
  limit_q :: "int option"

definition hasSkip :: "query \<Rightarrow> bool" where
  "hasSkip q = (0 < skip_q q)"

definition hasLimit :: "query \<Rightarrow> bool" where
  "hasLimit q = (limit_q q \<noteq> None)"

definition new_Query :: query where
  "new_Query = \<lparr>filter_q = (\<lambda>v. True), sort_q = (\<lambda>vs. vs), skip_q = 0, limit_q = None\<rparr>"

text \<open>\<^verbatim>\<open>query.contains('_id', ids)\<close>: the values whose \<^verbatim>\<open>_id\<close> is one of \<open>ids\<close>.\<close>

definition contains_id :: "query \<Rightarrow> string list \<Rightarrow> query" where
  "contains_id q ids =
     q\<lparr>filter_q := (\<lambda>v. filter_q q v \<and> (case jsval_id v of Some i \<Rightarrow> i \<in> set ids | None \<Rightarrow> False))\<rparr>"

definition applyQueryToDataset :: "jsval list \<Rightarrow> query option \<Rightarrow> jsval list" where
  "applyQueryToDataset dataset query =
     (case query of
        None \<Rightarrow> dataset
      | Some q \<Rightarrow>
          (let sorted = sort_q q (filter (filter_q q) dataset);
               skipped = drop (nat (skip_q q)) sorted
           in case limit_q q of None \<Rightarrow> skipped | Some l \<Rightarrow> take (nat l) skipped))"

subsection \<open>read, readById, create, delete, deleteById\<close>

definition read :: "string \<Rightarrow> persister \<Rightarrow> string \<Rightarrow> query option \<Rightarrow> jsval list" where
  "read appKey ps collection query =
     (case query of
        Some q \<Rightarrow> applyQueryToDataset (priv_readAll appKey ps collection) (Some q)
      | None \<Rightarrow> priv_readAll appKey ps collection)"

text \<open>
  \<^verbatim>\<open>allEntities.find(e => e._id === id)\<close> for an id that is a string: only an entity
  can be found, a stored prototype member has no \<^verbatim>\<open>_id\<close>.
\<close>

fun find_by_id :: "string \<Rightarrow> jsval list \<Rightarrow> entity option" where
  "find_by_id ident [] = None"
| "find_by_id ident (Entity e # r) = (if eid e = Some ident then Some e else find_by_id ident r)"
| "find_by_id ident (ProtoMember m # r) = find_by_id ident r"

definition readById :: "string \<Rightarrow> persister \<Rightarrow> string \<Rightarrow> string \<Rightarrow> kerror + entity" where
  "readById appKey ps collection ident =
     (case find_by_id ident (priv_readAll appKey ps collection) of
        None \<Rightarrow> Inl NotFoundError
      | Some e \<Rightarrow> Inr e)"

definition priv_create :: "string \<Rightarrow> persister \<Rightarrow> string \<Rightarrow> jsval list \<Rightarrow> persister" where
  "priv_create appKey ps collection entitiesToSave =
     priv_saveAll appKey ps collection (priv_readAll appKey ps collection @ entitiesToSave)"

definition create :: "string \<Rightarrow> persister \<Rightarrow> string \<Rightarrow> jsval list \<Rightarrow> (kerror + jsval list) \<times> persister" where
  "create appKey ps collection entitiesToSave =
     (Inr entitiesToSave, priv_create appKey ps collection entitiesToSave)"

definition priv_deleteMatchingEntitiesFromPersistance ::
  "string \<Rightarrow> persister \<Rightarrow> string \<Rightarrow> jsval list \<Rightarrow> jsval list \<Rightarrow> persister" where
  "priv_deleteMatchingEntitiesFromPersistance appKey ps collection allEntities entitiesMatchedByQuery =
     (let shouldDeleteById = keyBy entitiesMatchedByQuery;
          remainingEntities = filter (\<lambda>e. obj_get shouldDeleteById (idKey e) = Undefined) allEntities;
          deletedCount = length allEntities - length remainingEntities
      in if 0 < deletedCount then priv_saveAll appKey ps collection remainingEntities else ps)"

definition priv_delete :: "string \<Rightarrow> persister \<Rightarrow> string \<Rightarrow> query option \<Rightarrow> nat \<times> persister" where
  "priv_delete appKey ps collection query =
     (let allEntities = priv_readAll appKey ps collection;
          matchingEntities = applyQueryToDataset allEntities query
      in (length matchingEntities,
          priv_deleteMatchingEntitiesFromPersistance appKey ps collection allEntities matchingEntities))"

definition delete :: "string \<Rightarrow> persister \<Rightarrow> string \<Rightarrow> query option \<Rightarrow> (kerror + nat) \<times> persister" where
  "delete appKey ps collection query =
     (case priv_delete appKey ps collection query of (n, ps') \<Rightarrow> (Inr n, ps'))"

text \<open>\<^verbatim>\<open>findIndex\<close> and \<^verbatim>\<open>splice(index, 1)\<close>: the first element of that id is removed.\<close>

fun remove_first :: "('a \<Rightarrow> bool) \<Rightarrow> 'a list \<Rightarrow> 'a list option" where
  "remove_first P [] = None"
| "remove_first P (x # xs) =
     (if P x then Some xs else map_option (\<lambda>r. x # r) (remove_first P xs))"

definition priv_deleteById :: "string \<Rightarrow> persister \<Rightarrow> string \<Rightarrow> string option \<Rightarrow> nat \<times> persister" where
  "priv_deleteById appKey ps collection ident =
     (case remove_first (\<lambda>e. jsval_id e = ident) (priv_readAll appKey ps collection) of
        Some allEntities \<Rightarrow> (1, priv_saveAll appKey ps collection allEntities)
      | None \<Rightarrow> (0, ps))"

definition deleteById :: "string \<Rightarrow> persister \<Rightarrow> string \<Rightarrow> string option \<Rightarrow> (kerror + nat) \<times> persister" where
  "deleteById appKey ps collection ident =
     (case priv_deleteById appKey ps collection ident of (n, ps') \<Rightarrow> (Inr n, ps'))"

section \<open>splitQueryIntoPages\<close>

text \<open>
  An argument that is not a number is \<open>None\<close>. \<^verbatim>\<open>Math.ceil(totalCount / pageSize)\<close> on
  integers is the rounded-up quotient; a zero page size gives \<^verbatim>\<open>Infinity\<close> or
  \<^verbatim>\<open>NaN\<close>, for which lodash \<^verbatim>\<open>times\<close> returns the empty array, as it does for a
  negative count. \<^verbatim>\<open>times(n, f)\<close> is the array of \<open>f 0\<close> to \<open>f (n - 1)\<close>.
\<close>

definition times :: "int \<Rightarrow> (int \<Rightarrow> 'a) \<Rightarrow> 'a list" where
  "times n f = map (\<lambda>i. f (int i)) [0..<nat n]"

definition Math_ceil_div :: "int \<Rightarrow> int \<Rightarrow> int" where
  "Math_ceil_div a b = (if b = 0 then 0 else - ((- a) div b))"

definition splitQueryIntoPages :: "query \<Rightarrow> int option \<Rightarrow> int option \<Rightarrow> kerror + query list" where
  "splitQueryIntoPages query pageSize totalCount =
     (case (pageSize, totalCount) of
        (Some p, Some n) \<Rightarrow>
          (let queryCount = Math_ceil_div n p
           in Inr (times queryCount
                (\<lambda>i. query\<lparr>skip_q := skip_q query + i * p,
                            limit_q := Some (min (n - i * p) p)\<rparr>)))
      | _ \<Rightarrow> Inl KinveyError)"

definition page_limits :: "query list \<Rightarrow> int list" where
  "page_limits pages = map (\<lambda>q. case limit_q q of Some l \<Rightarrow> l | None \<Rightarrow> 0) pages"

section \<open>SyncManager\<close>

subsection \<open>Collaborators that are not part of the sources\<close>

text \<open>
  The network repository, the sync state manager, the query cache and the delta-set
  request are imported by \<^verbatim>\<open>sync-manager.js\<close> but are not part of the sources. They are
  parameters: a record of functions, one per operation the manager calls. A network
  operation yields the settled result of the request. An operation of the sync state
  manager or of the query cache yields an error, or its result and the new state of that
  component (\<open>'ss\<close>, \<open>'qc\<close>). \<open>'cq\<close> is the type of a CachedQuery and
  \<open>set_lastRequest\<close> the assignment \<^verbatim>\<open>cachedQuery.lastRequest = ...\<close>.
  The constant \<^verbatim>\<open>maxEntityLimit\<close> is a parameter as well. A delta-set response
  has headers; its \<^verbatim>\<open>deleted\<close> array is given by the ids of its elements.
\<close>

datatype syncOperation = Create | Update | Delete | UnexpectedOp string

record syncItem =
  entityId :: string
  si_collection :: string
  operation :: syncOperation

datatype readResponse = KinveyResponse "string option" "entity list" | DataOnly "entity list"

record deltaResponse =
  requestStart :: "string option"
  changed :: "entity list"
  deleted :: "string list"

record countResponse =
  cr_lastRequest :: "string option"
  cr_count :: "int option"

record pullOptions =
  useDeltaSet :: bool
  autoPagination :: "int option option"

record ('ss, 'qc, 'cq) collaborators =
  network_create :: "string \<Rightarrow> entity \<Rightarrow> kerror + entity"
  network_update :: "string \<Rightarrow> entity \<Rightarrow> kerror + entity"
  network_deleteById :: "string \<Rightarrow> string \<Rightarrow> kerror + unit"
  network_read :: "string \<Rightarrow> query option \<Rightarrow> kerror + readResponse"
  network_read_dataOnly :: "string \<Rightarrow> query \<Rightarrow> kerror + entity list"
  network_count :: "string \<Rightarrow> query \<Rightarrow> kerror + countResponse"
  deltaSet :: "string \<Rightarrow> query option \<Rightarrow> pullOptions \<Rightarrow> kerror + deltaResponse"
  getSyncItems :: "string \<Rightarrow> string option list option \<Rightarrow> 'ss \<Rightarrow> kerror + syncItem list"
  removeSyncItemForEntityId :: "string \<Rightarrow> string \<Rightarrow> 'ss \<Rightarrow> kerror + 'ss"
  getCachedQuery :: "string \<Rightarrow> query option \<Rightarrow> 'qc \<Rightarrow> kerror + 'cq option \<times> 'qc"
  updateCachedQuery :: "'cq \<Rightarrow> 'qc \<Rightarrow> kerror + 'qc"
  deleteCachedQuery :: "'cq option \<Rightarrow> 'qc \<Rightarrow> kerror + 'qc"
  set_lastRequest :: "'cq \<Rightarrow> string option \<Rightarrow> 'cq"
  maxEntityLimit :: int

text \<open>
  The state the manager works on: the module-level \<^verbatim>\<open>pushTrackingByCollection\<close>
  (the only value ever stored in it is \<^verbatim>\<open>true\<close>, written \<open>()\<close>), the
  persister behind the offline repository, the states of the sync state manager and of
  the query cache, and the network requests of the push pipeline in the order they were
  issued.
\<close>

datatype pushRequest =
    PostEntity string entity
  | PutEntity string entity
  | DeleteEntity string string

record ('ss, 'qc) sm_state =
  pushTrackingByCollection :: "unit jsobj"
  offline :: persister
  syncState :: 'ss
  queryCache :: 'qc
  pushRequests :: "pushRequest list"

subsection \<open>push\<close>

record pushResult =
  r_id :: "string option"
  r_operation :: syncOperation
  r_entity :: "entity option option"
  r_error :: "kerror option"

text \<open>\<open>r_entity = None\<close>: no \<^verbatim>\<open>entity\<close> property; \<open>Some None\<close>: the property is \<^verbatim>\<open>null\<close>.\<close>

definition priv_pushIsInProgress :: "('ss, 'qc) sm_state \<Rightarrow> string option \<Rightarrow> bool" where
  "priv_pushIsInProgress st collection =
     (case obj_get (pushTrackingByCollection st) (toPropertyKey collection) of
        Own u \<Rightarrow> True
      | Inherited m \<Rightarrow> True
      | Undefined \<Rightarrow> False)"

definition priv_markPushStart :: "('ss, 'qc) sm_state \<Rightarrow> string option \<Rightarrow> ('ss, 'qc) sm_state" where
  "priv_markPushStart st collection =
     (if \<not> priv_pushIsInProgress st collection
      then st\<lparr>pushTrackingByCollection :=
                obj_put (pushTrackingByCollection st) (toPropertyKey collection) ()\<rparr>
      else st)"

definition priv_markPushEnd :: "('ss, 'qc) sm_state \<Rightarrow> string option \<Rightarrow> ('ss, 'qc) sm_state" where
  "priv_markPushEnd st collection =
     (if priv_pushIsInProgress st collection
      then st\<lparr>pushTrackingByCollection :=
                obj_delete (pushTrackingByCollection st) (toPropertyKey collection)\<rparr>
      else st)"

definition priv_getEntityIdsForQuery ::
  "string \<Rightarrow> ('ss, 'qc) sm_state \<Rightarrow> string \<Rightarrow> query \<Rightarrow> string option list" where
  "priv_getEntityIdsForQuery appKey st collection query =
     map jsval_id (read appKey (offline st) collection (Some query))"

definition priv_getPushOpResult :: "string option \<Rightarrow> syncOperation \<Rightarrow> pushResult" where
  "priv_getPushOpResult ident op =
     \<lparr>r_id = ident, r_operation = op,
      r_entity = (if op \<noteq> Delete then Some None else None), r_error = None\<rparr>"

text \<open>
  \<^verbatim>\<open>_sanitizeOfflineEntity\<close>: lodash \<^verbatim>\<open>clone\<close> is shallow, the copy shares its
  \<^verbatim>\<open>_kmd\<close> object with the argument. \<^verbatim>\<open>delete copy._id\<close> changes the copy only,
  \<^verbatim>\<open>delete copy._kmd.local\<close> removes \<^verbatim>\<open>local\<close> from the argument as well. The result
  is the copy, together with the argument as it is after the call.
\<close>

definition priv_sanitizeOfflineEntity :: "entity \<Rightarrow> entity \<times> entity" where
  "priv_sanitizeOfflineEntity offlineEntity =
     (offlineEntity\<lparr>eid := None, kmd_local := False\<rparr>, offlineEntity\<lparr>kmd_local := False\<rparr>)"

definition priv_replaceOfflineEntityWithNetwork ::
  "string \<Rightarrow> persister \<Rightarrow> string \<Rightarrow> string option \<Rightarrow> entity \<Rightarrow> persister" where
  "priv_replaceOfflineEntityWithNetwork appKey ps collection offlineEntityId networkEntity =
     snd (create appKey (snd (deleteById appKey ps collection offlineEntityId)) collection
            [Entity networkEntity])"

text \<open>
  \<^verbatim>\<open>_pushCreate\<close>: \<open>ent1\<close> is the offline entity as the rest of the function sees it,
  after \<^verbatim>\<open>_sanitizeOfflineEntity\<close> has run on it. The entity was read from the persister,
  which hands out what it deserialises, so the persisted array is not affected.
\<close>

definition priv_pushCreate ::
  "('ss, 'qc, 'cq) collaborators \<Rightarrow> string \<Rightarrow> string \<Rightarrow> entity
     \<Rightarrow> ('ss, 'qc) sm_state \<Rightarrow> (kerror + pushResult) \<times> ('ss, 'qc) sm_state" where
  "priv_pushCreate env appKey collection ent st =
     (case (if kmd_local ent then priv_sanitizeOfflineEntity ent else (ent, ent)) of
        (entityToCreate, ent1) \<Rightarrow>
          (let result = priv_getPushOpResult (eid ent1) Create;
               st1 = st\<lparr>pushRequests := pushRequests st @ [PostEntity collection entityToCreate]\<rparr>
           in case network_create env collection entityToCreate of
                Inr createdItem \<Rightarrow>
                  (Inr (result\<lparr>r_entity := Some (Some createdItem)\<rparr>),
                   st1\<lparr>offline := priv_replaceOfflineEntityWithNetwork appKey (offline st1)
                                       collection (eid ent1) createdItem\<rparr>)
              | Inl err \<Rightarrow> (Inr (result\<lparr>r_error := Some err\<rparr>), st1)))"

definition priv_pushDelete ::
  "('ss, 'qc, 'cq) collaborators \<Rightarrow> string \<Rightarrow> string
     \<Rightarrow> ('ss, 'qc) sm_state \<Rightarrow> (kerror + pushResult) \<times> ('ss, 'qc) sm_state" where
  "priv_pushDelete env collection ident st =
     (let result = priv_getPushOpResult (Some ident) Delete;
          st1 = st\<lparr>pushRequests := pushRequests st @ [DeleteEntity collection ident]\<rparr>
      in case network_deleteById env collection ident of
           Inr u \<Rightarrow> (Inr result, st1)
         | Inl err \<Rightarrow> (Inr (result\<lparr>r_error := Some err\<rparr>), st1))"

definition priv_pushUpdate ::
  "('ss, 'qc, 'cq) collaborators \<Rightarrow> string \<Rightarrow> string \<Rightarrow> entity
     \<Rightarrow> ('ss, 'qc) sm_state \<Rightarrow> (kerror + pushResult) \<times> ('ss, 'qc) sm_state" where
  "priv_pushUpdate env appKey collection ent st =
     (let result = priv_getPushOpResult (eid ent) Update;
          st1 = st\<lparr>pushRequests := pushRequests st @ [PutEntity collection ent]\<rparr>
      in case network_update env collection ent of
           Inr updateResult \<Rightarrow>
             (Inr (result\<lparr>r_entity := Some (Some updateResult)\<rparr>),
              st1\<lparr>offline := snd (update appKey (offline st1) collection [Entity updateResult])\<rparr>)
         | Inl err \<Rightarrow> (Inr (result\<lparr>r_entity := Some (Some ent), r_error := Some err\<rparr>), st1))"

text \<open>
  \<^verbatim>\<open>_handlePushOp\<close>: for Create and Update the offline entity is dereferenced; on
  \<^verbatim>\<open>null\<close> that throws inside the \<^verbatim>\<open>then\<close> callback, which rejects the promise.
\<close>

definition priv_handlePushOp ::
  "('ss, 'qc, 'cq) collaborators \<Rightarrow> string \<Rightarrow> string \<Rightarrow> syncItem \<Rightarrow> entity option
     \<Rightarrow> ('ss, 'qc) sm_state \<Rightarrow> (kerror + pushResult) \<times> ('ss, 'qc) sm_state" where
  "priv_handlePushOp env appKey collection item offlineEntity st =
     (case operation item of
        Create \<Rightarrow>
          (case offlineEntity of
             Some ent \<Rightarrow> priv_pushCreate env appKey collection ent st
           | None \<Rightarrow> (Inl (OtherError ''TypeError''), st))
      | Delete \<Rightarrow> priv_pushDelete env collection (entityId item) st
      | Update \<Rightarrow>
          (case offlineEntity of
             Some ent \<Rightarrow> priv_pushUpdate env appKey collection ent st
           | None \<Rightarrow> (Inl (OtherError ''TypeError''), st))
      | UnexpectedOp name \<Rightarrow>
          (Inr ((priv_getPushOpResult (Some (entityId item)) (UnexpectedOp name))
                  \<lparr>r_error := Some SyncError\<rparr>), st))"

definition priv_pushItem ::
  "('ss, 'qc, 'cq) collaborators \<Rightarrow> string \<Rightarrow> string \<Rightarrow> syncItem
     \<Rightarrow> ('ss, 'qc) sm_state \<Rightarrow> (kerror + pushResult) \<times> ('ss, 'qc) sm_state" where
  "priv_pushItem env appKey collection item st =
     (case readById appKey (offline st) collection (entityId item) of
        Inr offlineEntity \<Rightarrow> priv_handlePushOp env appKey collection item (Some offlineEntity) st
      | Inl err \<Rightarrow>
          if err \<noteq> NotFoundError then (Inl err, st)
          else if operation item \<noteq> Delete
          then (case removeSyncItemForEntityId env collection (entityId item) (syncState st) of
                  Inr ss \<Rightarrow> (Inl err, st\<lparr>syncState := ss\<rparr>)
                | Inl err' \<Rightarrow> (Inl err', st))
          else priv_handlePushOp env appKey collection item None st)"

definition priv_processSyncItem ::
  "('ss, 'qc, 'cq) collaborators \<Rightarrow> string \<Rightarrow> string \<Rightarrow> syncItem
     \<Rightarrow> ('ss, 'qc) sm_state \<Rightarrow> (kerror + pushResult) \<times> ('ss, 'qc) sm_state" where
  "priv_processSyncItem env appKey collection item st =
     (case priv_pushItem env appKey collection item st of
        (Inr result, st1) \<Rightarrow>
          if r_error result \<noteq> None then (Inr result, st1)
          else (case removeSyncItemForEntityId env (si_collection item) (entityId item) (syncState st1) of
                  Inr ss \<Rightarrow> (Inr result, st1\<lparr>syncState := ss\<rparr>)
                | Inl err \<Rightarrow>
                    (Inr ((priv_getPushOpResult (Some (entityId item)) (operation item))
                            \<lparr>r_error := Some err\<rparr>), st1))
      | (Inl err, st1) \<Rightarrow>
          (Inr ((priv_getPushOpResult (Some (entityId item)) (operation item))
                  \<lparr>r_error := Some err\<rparr>), st1))"

text \<open>
  \<^verbatim>\<open>_processSyncItems\<close> with \<^verbatim>\<open>forEachAsync\<close>: the items are processed one after the
  other in list order (the order in which concurrent items complete is not modelled);
  \<^verbatim>\<open>forEachAsync\<close> counts a rejected item as done and resolves, so a rejection would
  only leave out that item's result.
\<close>

fun priv_processSyncItems ::
  "('ss, 'qc, 'cq) collaborators \<Rightarrow> string \<Rightarrow> string \<Rightarrow> syncItem list
     \<Rightarrow> ('ss, 'qc) sm_state \<Rightarrow> (kerror + pushResult list) \<times> ('ss, 'qc) sm_state" where
  "priv_processSyncItems env appKey collection [] st = (Inr [], st)"
| "priv_processSyncItems env appKey collection (item # items) st =
     (case priv_processSyncItem env appKey collection item st of
        (r, st1) \<Rightarrow>
          (case priv_processSyncItems env appKey collection items st1 of
             (Inr pushResults, st2) \<Rightarrow>
               (Inr ((case r of Inr pushResult \<Rightarrow> [pushResult] | Inl err \<Rightarrow> []) @ pushResults), st2)
           | (Inl err, st2) \<Rightarrow> (Inl err, st2)))"

text \<open>
  \<^verbatim>\<open>push\<close> runs synchronously up to \<^verbatim>\<open>_markPushStart\<close> (\<open>push_begin\<close>: the error it
  rejects with, or \<open>None\<close> when the push is now in flight); the promise chain that
  follows is \<open>push_settle\<close>. A collection name is a string, so the first check fails
  for the empty name only. The \<^verbatim>\<open>catch\<close> handler calls \<^verbatim>\<open>_markPushEnd()\<close> without
  an argument.
\<close>

definition push_begin ::
  "string \<Rightarrow> ('ss, 'qc) sm_state \<Rightarrow> kerror option \<times> ('ss, 'qc) sm_state" where
  "push_begin collection st =
     (if collection = [] then (Some KinveyError, st)
      else if priv_pushIsInProgress st (Some collection) then (Some SyncError, st)
      else (None, priv_markPushStart st (Some collection)))"

definition push_settle ::
  "('ss, 'qc, 'cq) collaborators \<Rightarrow> string \<Rightarrow> string \<Rightarrow> query option
     \<Rightarrow> ('ss, 'qc) sm_state \<Rightarrow> (kerror + pushResult list) \<times> ('ss, 'qc) sm_state" where
  "push_settle env appKey collection query st =
     (let entityIds = map_option (priv_getEntityIdsForQuery appKey st collection) query
      in case getSyncItems env collection entityIds (syncState st) of
           Inl err \<Rightarrow> (Inl err, priv_markPushEnd st None)
         | Inr syncItems \<Rightarrow>
             (case priv_processSyncItems env appKey collection syncItems st of
                (Inr pushResult, st1) \<Rightarrow> (Inr pushResult, priv_markPushEnd st1 (Some collection))
              | (Inl err, st1) \<Rightarrow> (Inl err, priv_markPushEnd st1 None)))"

definition push ::
  "('ss, 'qc, 'cq) collaborators \<Rightarrow> string \<Rightarrow> string \<Rightarrow> query option
     \<Rightarrow> ('ss, 'qc) sm_state \<Rightarrow> (kerror + pushResult list) \<times> ('ss, 'qc) sm_state" where
  "push env appKey collection query st =
     (case push_begin collection st of
        (Some err, st1) \<Rightarrow> (Inl err, st1)
      | (None, st1) \<Rightarrow> push_settle env appKey collection query st1)"

subsection \<open>pull\<close>

definition priv_deleteOfflineEntities ::
  "string \<Rightarrow> ('ss, 'qc) sm_state \<Rightarrow> string \<Rightarrow> query option \<Rightarrow> ('ss, 'qc) sm_state" where
  "priv_deleteOfflineEntities appKey st collection query =
     st\<lparr>offline := snd (delete appKey (offline st) collection query)\<rparr>"

definition priv_replaceOfflineEntities ::
  "string \<Rightarrow> ('ss, 'qc) sm_state \<Rightarrow> string \<Rightarrow> query option \<Rightarrow> entity list
     \<Rightarrow> (kerror + jsval list) \<times> ('ss, 'qc) sm_state" where
  "priv_replaceOfflineEntities appKey st collection deleteOfflineQuery networkEntities =
     (if (case deleteOfflineQuery of Some q \<Rightarrow> hasSkip q \<or> hasLimit q | None \<Rightarrow> False)
      then (case update appKey (offline st) collection (map Entity networkEntities) of
              (r, ps) \<Rightarrow> (r, st\<lparr>offline := ps\<rparr>))
      else (let st1 = priv_deleteOfflineEntities appKey st collection deleteOfflineQuery
            in case update appKey (offline st1) collection (map Entity networkEntities) of
                 (r, ps) \<Rightarrow> (r, st1\<lparr>offline := ps\<rparr>)))"

text \<open>
  The step shared by the three pull modes: read the CachedQuery of the
  (collection, query) pair and, when there is one (and \<open>stamp\<close> holds), store the
  request start in it.
\<close>

definition stampCachedQuery ::
  "('ss, 'qc, 'cq) collaborators \<Rightarrow> string \<Rightarrow> query option \<Rightarrow> bool \<Rightarrow> string option
     \<Rightarrow> ('ss, 'qc) sm_state \<Rightarrow> (kerror + unit) \<times> ('ss, 'qc) sm_state" where
  "stampCachedQuery env collection query stamp lastRequest st =
     (case getCachedQuery env collection query (queryCache st) of
        Inl err \<Rightarrow> (Inl err, st)
      | Inr (cachedQuery, qc) \<Rightarrow>
          (case cachedQuery of
             Some cq \<Rightarrow>
               if stamp
               then (case updateCachedQuery env (set_lastRequest env cq lastRequest) qc of
                       Inl err \<Rightarrow> (Inl err, st\<lparr>queryCache := qc\<rparr>)
                     | Inr qc' \<Rightarrow> (Inr (), st\<lparr>queryCache := qc'\<rparr>))
               else (Inr (), st\<lparr>queryCache := qc\<rparr>)
           | None \<Rightarrow> (Inr (), st\<lparr>queryCache := qc\<rparr>)))"

definition pull_deltaSet ::
  "('ss, 'qc, 'cq) collaborators \<Rightarrow> string \<Rightarrow> string \<Rightarrow> query option \<Rightarrow> pullOptions
     \<Rightarrow> ('ss, 'qc) sm_state \<Rightarrow> (kerror + nat) \<times> ('ss, 'qc) sm_state" where
  "pull_deltaSet env appKey collection query options st =
     (case deltaSet env collection query options of
        Inl err \<Rightarrow> (Inl err, st)
      | Inr response \<Rightarrow>
          (case stampCachedQuery env collection query True (requestStart response) st of
             (Inl err, st1) \<Rightarrow> (Inl err, st1)
           | (Inr u, st1) \<Rightarrow>
               (let st2 = (if 0 < length (deleted response)
                           then priv_deleteOfflineEntities appKey st1 collection
                                  (Some (contains_id new_Query (deleted response)))
                           else st1)
                in if 0 < length (changed response)
                   then (Inr (length (changed response)),
                         st2\<lparr>offline := snd (update appKey (offline st2) collection
                                                 (map Entity (changed response)))\<rparr>)
                   else (Inr 0, st2))))"

text \<open>
  \<^verbatim>\<open>_getInternalPullQuery\<close> keeps the filter and the sort of the user query, resets the skip
  and sets the limit to the expected count. (The default sort by \<^verbatim>\<open>_id\<close> for a query
  without a sort is the sort of the user query here.)
\<close>

definition priv_getInternalPullQuery :: "query \<Rightarrow> int option \<Rightarrow> query" where
  "priv_getInternalPullQuery userQuery totalCount = userQuery\<lparr>skip_q := 0, limit_q := totalCount\<rparr>"

definition priv_fetchAndUpdateEntities ::
  "('ss, 'qc, 'cq) collaborators \<Rightarrow> string \<Rightarrow> string \<Rightarrow> query
     \<Rightarrow> ('ss, 'qc) sm_state \<Rightarrow> (kerror + jsval list) \<times> ('ss, 'qc) sm_state" where
  "priv_fetchAndUpdateEntities env appKey collection query st =
     (case network_read_dataOnly env collection query of
        Inl err \<Rightarrow> (Inl err, st)
      | Inr entities \<Rightarrow>
          (case update appKey (offline st) collection (map Entity entities) of
             (r, ps) \<Rightarrow> (r, st\<lparr>offline := ps\<rparr>)))"

text \<open>A failed page is counted as done by \<^verbatim>\<open>forEachAsync\<close> and adds nothing.\<close>

fun priv_executePaginationQueries ::
  "('ss, 'qc, 'cq) collaborators \<Rightarrow> string \<Rightarrow> string \<Rightarrow> query list
     \<Rightarrow> ('ss, 'qc) sm_state \<Rightarrow> nat \<times> ('ss, 'qc) sm_state" where
  "priv_executePaginationQueries env appKey collection [] st = (0, st)"
| "priv_executePaginationQueries env appKey collection (query # queries) st =
     (case priv_fetchAndUpdateEntities env appKey collection query st of
        (r, st1) \<Rightarrow>
          (case priv_executePaginationQueries env appKey collection queries st1 of
             (pulledEntityCount, st2) \<Rightarrow>
               ((case r of Inr updatedEntities \<Rightarrow> length updatedEntities | Inl err \<Rightarrow> 0)
                  + pulledEntityCount, st2)))"

definition priv_paginatedPull ::
  "('ss, 'qc, 'cq) collaborators \<Rightarrow> string \<Rightarrow> string \<Rightarrow> query option \<Rightarrow> pullOptions
     \<Rightarrow> ('ss, 'qc) sm_state \<Rightarrow> (kerror + nat) \<times> ('ss, 'qc) sm_state" where
  "priv_paginatedPull env appKey collection query options st =
     (let userQuery = (case query of Some q \<Rightarrow> q | None \<Rightarrow> new_Query)
      in case network_count env collection (new_Query\<lparr>filter_q := filter_q userQuery\<rparr>) of
           Inl err \<Rightarrow> (Inl err, st)
         | Inr response \<Rightarrow>
             (let pullQuery = priv_getInternalPullQuery userQuery (cr_count response);
                  st1 = priv_deleteOfflineEntities appKey st collection None;
                  pageSize = (case autoPagination options of
                                Some (Some p) \<Rightarrow> if p = 0 then maxEntityLimit env else p
                              | _ \<Rightarrow> maxEntityLimit env)
              in case splitQueryIntoPages pullQuery (Some pageSize) (cr_count response) of
                   Inl err \<Rightarrow> (Inl err, st1)
                 | Inr paginatedQueries \<Rightarrow>
                     (case priv_executePaginationQueries env appKey collection paginatedQueries st1 of
                        (n, st2) \<Rightarrow>
                          (case stampCachedQuery env collection (Some userQuery) True
                                  (cr_lastRequest response) st2 of
                             (Inl err, st3) \<Rightarrow> (Inl err, st3)
                           | (Inr u, st3) \<Rightarrow> (Inr n, st3)))))"

text \<open>
  \<^verbatim>\<open>response.headers\<close>, \<^verbatim>\<open>response.headers.requestStart\<close> and
  \<^verbatim>\<open>response.data ? response.data : response\<close> of a read response.
\<close>

fun response_has_headers :: "readResponse \<Rightarrow> bool" where
  "response_has_headers (KinveyResponse start entities) = True"
| "response_has_headers (DataOnly entities) = False"

fun response_requestStart :: "readResponse \<Rightarrow> string option" where
  "response_requestStart (KinveyResponse start entities) = start"
| "response_requestStart (DataOnly entities) = None"

fun response_data :: "readResponse \<Rightarrow> entity list" where
  "response_data (KinveyResponse start entities) = entities"
| "response_data (DataOnly entities) = entities"

definition pull_regular ::
  "('ss, 'qc, 'cq) collaborators \<Rightarrow> string \<Rightarrow> string \<Rightarrow> query option
     \<Rightarrow> ('ss, 'qc) sm_state \<Rightarrow> (kerror + nat) \<times> ('ss, 'qc) sm_state" where
  "pull_regular env appKey collection query st =
     (case network_read env collection query of
        Inl err \<Rightarrow> (Inl err, st)
      | Inr response \<Rightarrow>
          (case stampCachedQuery env collection query (response_has_headers response)
                  (response_requestStart response) st of
             (Inl err, st1) \<Rightarrow> (Inl err, st1)
           | (Inr u, st1) \<Rightarrow>
               (case priv_replaceOfflineEntities appKey st1 collection query (response_data response) of
                  (Inl err, st2) \<Rightarrow> (Inl err, st2)
                | (Inr entities, st2) \<Rightarrow> (Inr (length entities), st2))))"

text \<open>The promise chain of \<^verbatim>\<open>pull\<close> before its \<^verbatim>\<open>catch\<close>.\<close>

definition pull_attempt ::
  "('ss, 'qc, 'cq) collaborators \<Rightarrow> string \<Rightarrow> string \<Rightarrow> query option \<Rightarrow> pullOptions
     \<Rightarrow> ('ss, 'qc) sm_state \<Rightarrow> (kerror + nat) \<times> ('ss, 'qc) sm_state" where
  "pull_attempt env appKey collection query options st =
     (if collection = [] then (Inl KinveyError, st)
      else if useDeltaSet options then pull_deltaSet env appKey collection query options st
      else if autoPagination options \<noteq> None
      then priv_paginatedPull env appKey collection query options st
      else pull_regular env appKey collection query st)"

text \<open>
  The \<^verbatim>\<open>catch\<close> handler of \<^verbatim>\<open>pull\<close> calls \<^verbatim>\<open>pull\<close> again. The first argument
  bounds the number of attempts; \<open>None\<close> is a promise that has not settled within the
  bound.
\<close>

fun pull ::
  "nat \<Rightarrow> ('ss, 'qc, 'cq) collaborators \<Rightarrow> string \<Rightarrow> string \<Rightarrow> query option \<Rightarrow> pullOptions
     \<Rightarrow> ('ss, 'qc) sm_state \<Rightarrow> (kerror + nat) option \<times> ('ss, 'qc) sm_state" where
  "pull 0 env appKey collection query options st = (None, st)"
| "pull (Suc fuel) env appKey collection query options st =
     (case pull_attempt env appKey collection query options st of
        (Inr n, st1) \<Rightarrow> (Some (Inr n), st1)
      | (Inl err, st1) \<Rightarrow>
          if err = InvalidCachedQuery
          then (case (case getCachedQuery env collection query (queryCache st1) of
                        Inl e \<Rightarrow> Inl e
                      | Inr (cachedQuery, qc) \<Rightarrow> deleteCachedQuery env cachedQuery qc) of
                  Inr qc \<Rightarrow>
                    pull fuel env appKey collection query (options\<lparr>useDeltaSet := False\<rparr>)
                      (st1\<lparr>queryCache := qc\<rparr>)
                | Inl e \<Rightarrow>
                    if e = NotFoundError
                    then pull fuel env appKey collection query (options\<lparr>useDeltaSet := False\<rparr>) st1
                    else (Some (Inl e), st1))
          else (Some (Inl err), st1))"

section \<open>KinveyRequest.execute\<close>

text \<open>
  The state \<^verbatim>\<open>execute\<close> works on: whether the module-level \<^verbatim>\<open>requestQueue\<close> is
  paused and how many re-executions have been added to it while it was,
  \<^verbatim>\<open>client._isRefreshing\<close>, and what was sent to \<^verbatim>\<open>client.refreshUserSubject\<close>: the
  number of users (\<^verbatim>\<open>next\<close>) and the errors (\<^verbatim>\<open>error\<close>, after which the client gets a
  new subject).
\<close>

record request_state =
  queue_paused :: bool
  queued :: nat
  isRefreshing :: bool
  subject_users :: nat
  subject_errors :: "kerror list"

record response =
  isSuccess :: bool
  response_error :: kerror
  response_body :: string

text \<open>
  What the promise of \<^verbatim>\<open>execute\<close> is fulfilled with: a response or, on one path, the
  error object that was caught.
\<close>

datatype executeValue = Response response | ErrorObject kerror

text \<open>
  A request, with what the code obtains from outside while it executes it: the outcomes
  of the successive executions of the request up to the \<^verbatim>\<open>catch\<close> (the authorization
  header and the rack's answer: a rejection or a response; none left: that execution does
  not settle), \<^verbatim>\<open>this.lastRetry\<close> (the code that would set it to \<^verbatim>\<open>true\<close> is commented
  out), and what a refresh of the session meets: the token
  request and the login request that \<^verbatim>\<open>execute\<close> creates (requests of their own, executed
  with \<^verbatim>\<open>request.execute()\<close>) and the error \<^verbatim>\<open>setActiveUser\<close> rejects with, if any
  (\<open>Request answers lastRetry script\<close>, \<open>RefreshScript token login activeUserError\<close>).
\<close>

datatype request = Request "(kerror + response) list" bool "refreshScript option"
and refreshScript = RefreshScript request request "kerror option"

text \<open>The number of answers a request and the requests of its refresh hold.\<close>

primrec request_answers :: "request \<Rightarrow> nat" and script_answers :: "refreshScript \<Rightarrow> nat" where
  "request_answers (Request answers lastRetry script) =
     Suc (length answers + (case map_option script_answers script of None \<Rightarrow> 0 | Some n \<Rightarrow> n))"
| "script_answers (RefreshScript token login activeUserError) =
     Suc (request_answers token + request_answers login)"

text \<open>
  The part of the chain before the \<^verbatim>\<open>catch\<close>: an unsuccessful response is thrown unless
  the raw response was asked for.
\<close>

definition checked_response :: "bool \<Rightarrow> kerror + response \<Rightarrow> kerror + response" where
  "checked_response rawResponse answer =
     (case answer of
        Inl err \<Rightarrow> Inl err
      | Inr r \<Rightarrow> if rawResponse = False \<and> isSuccess r = False then Inl (response_error r) else Inr r)"

text \<open>
  The \<^verbatim>\<open>catch\<close> handler at the end of the refresh chain: it signals an
  InvalidCredentials error on \<^verbatim>\<open>refreshUserSubject\<close>, starts the queue and returns
  \<^verbatim>\<open>Promise.resolve(error)\<close>, where \<^verbatim>\<open>error\<close> is the error of the first execution.
\<close>

definition refresh_failed ::
  "kerror \<Rightarrow> request_state \<Rightarrow> (kerror + executeValue) option \<times> request_state" where
  "refresh_failed error st =
     (Some (Inr (ErrorObject error)),
      st\<lparr>isRefreshing := False,
         subject_errors := subject_errors st @ [InvalidCredentialsError],
         queue_paused := False\<rparr>)"

text \<open>
  \<open>execute request hasSession rawResponse retry st\<close>; \<open>hasSession\<close> tells whether the
  active user has a \<^verbatim>\<open>kinveyAuth\<close> session to refresh. The result is \<open>None\<close> when the
  promise does not settle: the execution is not answered, or the re-execution was added
  to the paused queue (\<^verbatim>\<open>requestQueue.add\<close>), where it waits for \<^verbatim>\<open>requestQueue.start()\<close>.
  The token request and the login request are executed while the queue is paused; the
  queue is started by the continuation that waits for them. A response of theirs that is
  an error object has no \<^verbatim>\<open>data\<close>: the next step throws, which the handler catches.
\<close>

function (sequential) execute ::
  "request \<Rightarrow> bool \<Rightarrow> bool \<Rightarrow> bool \<Rightarrow> request_state
     \<Rightarrow> (kerror + executeValue) option \<times> request_state" where
  "execute (Request [] isLastRetry script) hasSession rawResponse retry st = (None, st)"
| "execute (Request (answer # answers) isLastRetry script) hasSession rawResponse retry st =
     (case checked_response rawResponse answer of
        Inr r \<Rightarrow> (Some (Inr (Response r)), st)
      | Inl error \<Rightarrow>
          if error = InvalidCredentialsError
          then
            if queue_paused st then (None, st\<lparr>queued := queued st + 1\<rparr>)
            else if isLastRetry
            then execute (Request answers False script) hasSession rawResponse False
                   (st\<lparr>queue_paused := True\<rparr>)
            else if retry
            then
              if hasSession
              then
                (case script of
                   None \<Rightarrow> (None, st\<lparr>queue_paused := True, isRefreshing := True\<rparr>)
                 | Some (RefreshScript token login activeUserError) \<Rightarrow>
                     (case execute token hasSession False True
                             (st\<lparr>queue_paused := True, isRefreshing := True\<rparr>) of
                        (None, st1) \<Rightarrow> (None, st1)
                      | (Some (Inl err), st1) \<Rightarrow> refresh_failed error st1
                      | (Some (Inr (ErrorObject e)), st1) \<Rightarrow> refresh_failed error st1
                      | (Some (Inr (Response session)), st1) \<Rightarrow>
                          (case execute login hasSession False True st1 of
                             (None, st2) \<Rightarrow> (None, st2)
                           | (Some (Inl err), st2) \<Rightarrow> refresh_failed error st2
                           | (Some (Inr (ErrorObject e)), st2) \<Rightarrow> refresh_failed error st2
                           | (Some (Inr (Response user)), st2) \<Rightarrow>
                               (case activeUserError of
                                  Some err \<Rightarrow>
                                    refresh_failed error
                                      (st2\<lparr>subject_users := Suc (subject_users st2)\<rparr>)
                                | None \<Rightarrow>
                                    (case execute (Request answers False script) hasSession
                                            rawResponse False
                                            (st2\<lparr>subject_users := Suc (subject_users st2),
                                                queue_paused := False, isRefreshing := False\<rparr>) of
                                       (Some (Inl err), st3) \<Rightarrow> refresh_failed error st3
                                     | settled \<Rightarrow> settled)))))
              else (Some (Inl error), st\<lparr>queue_paused := False\<rparr>)
            else (Some (Inl InvalidCredentialsError), st\<lparr>queue_paused := True\<rparr>)
          else (Some (Inl error), st))"
  by pat_completeness auto

termination execute
  by (relation "measure (\<lambda>(request, hasSession, rawResponse, retry, st). request_answers request)")
     simp_all

section \<open>Sample data\<close>

text \<open>Concrete entities and stores at which the theorems below are instantiated.\<close>

definition book_a :: entity where
  "book_a = \<lparr>eid = Some ''5b7c1d2e3f4a5b6c7d8e9f01'', kmd_local = False, payload = ''title A''\<rparr>"

definition book_a_new :: entity where
  "book_a_new = \<lparr>eid = Some ''5b7c1d2e3f4a5b6c7d8e9f01'', kmd_local = False, payload = ''title A, second edition''\<rparr>"

definition book_b :: entity where
  "book_b = \<lparr>eid = Some ''5b7c1d2e3f4a5b6c7d8e9f02'', kmd_local = False, payload = ''title B''\<rparr>"

definition book_c :: entity where
  "book_c = \<lparr>eid = Some ''5b7c1d2e3f4a5b6c7d8e9f03'', kmd_local = False, payload = ''title C''\<rparr>"

definition book_odd :: entity where
  "book_odd = \<lparr>eid = Some ''constructor'', kmd_local = False, payload = ''custom id''\<rparr>"

definition books_store :: persister where
  "books_store = [(''kid_1.books'', [Entity book_a, Entity book_b])]"

text \<open>
  Modelled from the spec: reference collaborators for the instances below. The sync state
  manager keeps the SyncItems in a list (spec, section 4.4), the query cache keeps one
  \<open>lastRequest\<close> per collection (section 4.3; the query is not part of the key here),
  and the backend answers every request: a created entity receives the id
  \<^verbatim>\<open>5b7c1d2e3f4a5b6c7d8e9fff\<close>, an update returns the entity, reads return \<open>book_c\<close>.
\<close>

definition ref_getSyncItems :: "string \<Rightarrow> string option list option \<Rightarrow> syncItem list \<Rightarrow> kerror + syncItem list" where
  "ref_getSyncItems c ids ss =
     Inr (filter (\<lambda>s. si_collection s = c
                      \<and> (case ids of None \<Rightarrow> True | Some l \<Rightarrow> Some (entityId s) \<in> set l)) ss)"

definition ref_removeSyncItemForEntityId :: "string \<Rightarrow> string \<Rightarrow> syncItem list \<Rightarrow> kerror + syncItem list" where
  "ref_removeSyncItemForEntityId c i ss =
     Inr (filter (\<lambda>s. \<not> (si_collection s = c \<and> entityId s = i)) ss)"

definition ref_getCachedQuery ::
  "string \<Rightarrow> query option \<Rightarrow> (string \<times> string option) list
     \<Rightarrow> kerror + (string \<times> string option) option \<times> (string \<times> string option) list" where
  "ref_getCachedQuery c q qc = Inr (map_option (\<lambda>t. (c, t)) (map_of qc c), qc)"

definition ref_updateCachedQuery ::
  "string \<times> string option \<Rightarrow> (string \<times> string option) list \<Rightarrow> kerror + (string \<times> string option) list" where
  "ref_updateCachedQuery cq qc = Inr (obj_put qc (fst cq) (snd cq))"

definition ref_deleteCachedQuery ::
  "(string \<times> string option) option \<Rightarrow> (string \<times> string option) list \<Rightarrow> kerror + (string \<times> string option) list" where
  "ref_deleteCachedQuery cq qc =
     (case cq of
        None \<Rightarrow> Inl NotFoundError
      | Some t \<Rightarrow> Inr (filter (\<lambda>p. fst p \<noteq> fst t) qc))"

definition ref_env ::
  "(syncItem list, (string \<times> string option) list, string \<times> string option) collaborators" where
  "ref_env =
     \<lparr>network_create = (\<lambda>c e. Inr (e\<lparr>eid := Some ''5b7c1d2e3f4a5b6c7d8e9fff''\<rparr>)),
      network_update = (\<lambda>c e. Inr e),
      network_deleteById = (\<lambda>c i. Inr ()),
      network_read = (\<lambda>c q. Inr (KinveyResponse (Some ''2018-06-01T10:00:00.000Z'') [book_c])),
      network_read_dataOnly = (\<lambda>c q. Inr [book_c]),
      network_count = (\<lambda>c q. Inr \<lparr>cr_lastRequest = Some ''2018-06-01T10:00:00.000Z'', cr_count = Some 1\<rparr>),
      deltaSet = (\<lambda>c q opts. Inr \<lparr>requestStart = Some ''2018-06-02T10:00:00.000Z'',
                                    changed = [book_a_new, book_c],
                                    deleted = [''5b7c1d2e3f4a5b6c7d8e9f02'']\<rparr>),
      getSyncItems = ref_getSyncItems,
      removeSyncItemForEntityId = ref_removeSyncItemForEntityId,
      getCachedQuery = ref_getCachedQuery,
      updateCachedQuery = ref_updateCachedQuery,
      deleteCachedQuery = ref_deleteCachedQuery,
      set_lastRequest = (\<lambda>cq t. (fst cq, t)),
      maxEntityLimit = 10000\<rparr>"


definition broken_sync_env ::
  "(syncItem list, (string \<times> string option) list, string \<times> string option) collaborators" where
  "broken_sync_env = ref_env\<lparr>getSyncItems := (\<lambda>c ids ss. Inl (OtherError ''sync table unreadable''))\<rparr>"

definition stale_env ::
  "(syncItem list, (string \<times> string option) list, string \<times> string option) collaborators" where
  "stale_env = ref_env\<lparr>deltaSet := (\<lambda>c q opts. Inl InvalidCachedQuery)\<rparr>"



definition odd_store :: persister where
  "odd_store = [(''kid_1.books'', [Entity book_odd])]"

definition update_a :: syncItem where
  "update_a = \<lparr>entityId = ''5b7c1d2e3f4a5b6c7d8e9f01'', si_collection = ''books'', operation = Update\<rparr>"

definition create_missing :: syncItem where
  "create_missing = \<lparr>entityId = ''5b7c1d2e3f4a5b6c7d8e9f09'', si_collection = ''books'', operation = Create\<rparr>"

definition idle_state :: "(syncItem list, (string \<times> string option) list) sm_state" where
  "idle_state =
     \<lparr>pushTrackingByCollection = [],
      offline = books_store,
      syncState = [update_a, create_missing],
      queryCache = [(''books'', Some ''2018-05-01T10:00:00.000Z'')],
      pushRequests = []\<rparr>"

text \<open>
  A request that is answered with 401 while the token request of the refresh is answered
  with 400 (an invalid grant), and one whose token request is answered with 401 as well.
\<close>

definition idle_request :: request_state where
  "idle_request = \<lparr>queue_paused = False, queued = 0, isRefreshing = False, subject_users = 0,
                    subject_errors = []\<rparr>"

definition unauthorized :: response where
  "unauthorized = \<lparr>isSuccess = False, response_error = InvalidCredentialsError,
                    response_body = ''InvalidCredentials''\<rparr>"

definition invalid_grant :: response where
  "invalid_grant = \<lparr>isSuccess = False, response_error = OtherError ''InvalidGrantError'',
                     response_body = ''invalid_grant''\<rparr>"

definition find_with_expired_session :: request where
  "find_with_expired_session =
     Request [Inr unauthorized] False
       (Some (RefreshScript (Request [Inr invalid_grant] False None) (Request [] False None) None))"

definition find_with_rejected_client :: request where
  "find_with_rejected_client =
     Request [Inr unauthorized] False
       (Some (RefreshScript (Request [Inr unauthorized] False None) (Request [] False None) None))"


section \<open>Verified properties\<close>

subsection \<open>Facts about the sample data\<close>

lemma idle_fields:
  "offline idle_state = books_store"
  "syncState idle_state = [update_a, create_missing]"
  "queryCache idle_state = [(''books'', Some ''2018-05-01T10:00:00.000Z'')]"
  "pushTrackingByCollection idle_state = []"
  "pushRequests idle_state = []"
  by (simp_all add: idle_state_def)

lemma ref_env_fields:
  "deltaSet ref_env = (\<lambda>c q opts. Inr \<lparr>requestStart = Some ''2018-06-02T10:00:00.000Z'',
                                    changed = [book_a_new, book_c],
                                    deleted = [''5b7c1d2e3f4a5b6c7d8e9f02'']\<rparr>)"
  "network_read ref_env = (\<lambda>c q. Inr (KinveyResponse (Some ''2018-06-01T10:00:00.000Z'') [book_c]))"
  "getCachedQuery ref_env = ref_getCachedQuery"
  "updateCachedQuery ref_env = ref_updateCachedQuery"
  "deleteCachedQuery ref_env = ref_deleteCachedQuery"
  "set_lastRequest ref_env = (\<lambda>cq t. (fst cq, t))"
  "getSyncItems ref_env = ref_getSyncItems"
  "removeSyncItemForEntityId ref_env = ref_removeSyncItemForEntityId"
  "network_update ref_env = (\<lambda>c e. Inr e)"
  by (simp_all add: ref_env_def)






subsection \<open>clear\<close>

lemma deleteAll_filter:
  "priv_deleteAll appKey ps c =
     filter (\<lambda>p. \<not> (fst p = priv_formCollectionKey appKey c
                    \<and> fst p \<noteq> appKey @ ''.'' @ activeUserKey)) ps"
  by (auto simp: priv_deleteAll_def persister_delete_def Let_def intro: filter_cong)

lemma fold_deleteAll:
  "fold (\<lambda>c ps'. priv_deleteAll appKey ps' c) cs ps =
     filter (\<lambda>p. fst p \<notin> {k. \<exists>c\<in>set cs. k = priv_formCollectionKey appKey c
                                \<and> k \<noteq> appKey @ ''.'' @ activeUserKey}) ps"
proof (induction cs arbitrary: ps)
  case Nil
  then show ?case by simp
next
  case (Cons c cs)
  have "fold (\<lambda>c ps'. priv_deleteAll appKey ps' c) (c # cs) ps
      = fold (\<lambda>c ps'. priv_deleteAll appKey ps' c) cs (priv_deleteAll appKey ps c)"
    by simp
  also have "\<dots> = filter (\<lambda>p. fst p \<notin> {k. \<exists>c\<in>set cs. k = priv_formCollectionKey appKey c
                                \<and> k \<noteq> appKey @ ''.'' @ activeUserKey})
       (filter (\<lambda>p. \<not> (fst p = priv_formCollectionKey appKey c
                    \<and> fst p \<noteq> appKey @ ''.'' @ activeUserKey)) ps)"
    by (subst Cons.IH) (simp only: deleteAll_filter)
  also have "\<dots> = filter (\<lambda>p. fst p \<notin> {k. \<exists>c\<in>set (c # cs). k = priv_formCollectionKey appKey c
                                \<and> k \<noteq> appKey @ ''.'' @ activeUserKey}) ps"
    unfolding filter_filter by (rule filter_cong) auto
  finally show ?case .
qed

lemma app_key_split:
  "prefix (appKey @ ''.'') k \<Longrightarrow>
     priv_keyBelongsToApp appKey k \<and>
     priv_formCollectionKey appKey (priv_getCollectionFromKey appKey k) = k"
  by (auto simp: prefix_def priv_keyBelongsToApp_def priv_formCollectionKey_def
      priv_getCollectionFromKey_def)

lemma cleared_keys:
  "filter (\<lambda>p. fst p \<notin> {k. \<exists>c\<in>set (priv_getAllCollections appKey ps).
            k = priv_formCollectionKey appKey c \<and> k \<noteq> appKey @ ''.'' @ activeUserKey}) ps
   = filter (\<lambda>p. \<not> (prefix (appKey @ ''.'') (fst p) \<and> fst p \<noteq> appKey @ ''.active_user'')) ps"
proof (rule filter_cong[OF refl])
  fix p assume p: "p \<in> set ps"
  show "(fst p \<notin> {k. \<exists>c\<in>set (priv_getAllCollections appKey ps).
          k = priv_formCollectionKey appKey c \<and> k \<noteq> appKey @ ''.'' @ activeUserKey})
     = (\<not> (prefix (appKey @ ''.'') (fst p) \<and> fst p \<noteq> appKey @ ''.active_user''))"
  proof (cases "prefix (appKey @ ''.'') (fst p)")
    case True
    from app_key_split[OF True] p
    have "priv_getCollectionFromKey appKey (fst p) \<in> set (priv_getAllCollections appKey ps)"
      by (auto simp: priv_getAllCollections_def persister_getKeys_def)
    with app_key_split[OF True] True show ?thesis
      by (auto simp: activeUserKey_def)
  next
    case False
    then show ?thesis
      by (auto simp: priv_formCollectionKey_def)
  qed
qed

lemma map_of_filter_key:
  "map_of (filter (\<lambda>p. \<not> Q (fst p)) ps) k = (if Q k then None else map_of ps k)"
  by (induction ps) auto

text \<open>
  C8. \<^verbatim>\<open>clear()\<close> without a collection removes from the persister exactly the entries
  whose key starts with \<^verbatim>\<open><appKey>.\<close>, other than \<^verbatim>\<open><appKey>.active_user\<close>; every other
  entry keeps its place and its content. A key of an app whose app key merely starts
  with this app key (\<^verbatim>\<open>kid_abc2.books\<close> for the app \<^verbatim>\<open>kid_abc\<close>) passes
  \<^verbatim>\<open>_keyBelongsToApp\<close>, but the collection key formed from it is another key, one that
  starts with \<^verbatim>\<open><appKey>.\<close>; the foreign entry stays.
\<close>

theorem clear_all_deletes_exactly_the_app_keys:
  "clear appKey ps None =
     (True, filter (\<lambda>p. \<not> (prefix (appKey @ ''.'') (fst p)
                            \<and> fst p \<noteq> appKey @ ''.active_user'')) ps)
   \<and> persister_read (snd (clear appKey ps None)) key =
       (if prefix (appKey @ ''.'') key \<and> key \<noteq> appKey @ ''.active_user''
        then None else persister_read ps key)"
proof -
  have eq: "clear appKey ps None =
     (True, filter (\<lambda>p. \<not> (prefix (appKey @ ''.'') (fst p)
                            \<and> fst p \<noteq> appKey @ ''.active_user'')) ps)"
    by (simp only: clear_def priv_clearCollections_def fold_deleteAll cleared_keys option.case)
  have "persister_read (filter (\<lambda>p. \<not> (prefix (appKey @ ''.'') (fst p)
                            \<and> fst p \<noteq> appKey @ ''.active_user'')) ps) key =
       (if prefix (appKey @ ''.'') key \<and> key \<noteq> appKey @ ''.active_user''
        then None else persister_read ps key)"
    unfolding persister_read_def
    by (rule map_of_filter_key
        [where Q = "\<lambda>k. prefix (appKey @ ''.'') k \<and> k \<noteq> appKey @ ''.active_user''"])
  with eq show ?thesis by simp
qed

subsection \<open>update\<close>

lemma obj_put_fresh: "k \<notin> fst ` set obj \<Longrightarrow> obj_put obj k v = obj @ [(k, v)]"
  by (induction obj) auto

lemma fold_put_distinct:
  "distinct (map fst acc @ map idKey vs) \<Longrightarrow>
   fold (\<lambda>v obj. obj_put obj (idKey v) v) vs acc = acc @ map (\<lambda>v. (idKey v, v)) vs"
proof (induction vs arbitrary: acc)
  case Nil
  then show ?case by simp
next
  case (Cons v vs)
  from Cons.prems have fresh: "idKey v \<notin> fst ` set acc" by auto
  from Cons.prems have "distinct (map fst (acc @ [(idKey v, v)]) @ map idKey vs)" by auto
  from Cons.IH[OF this] show ?case by (simp add: obj_put_fresh[OF fresh])
qed

lemma keyBy_distinct:
  "distinct (map idKey vs) \<Longrightarrow> keyBy vs = map (\<lambda>v. (idKey v, v)) vs"
  using fold_put_distinct[of "[]" vs] by (simp add: keyBy_def)

lemma map_of_obj_delete:
  "map_of (obj_delete obj k) k' = (if k' = k then None else map_of obj k')"
  by (induction obj) (auto simp: obj_delete_def)

lemma length_obj_delete:
  "map_of obj k \<noteq> None \<Longrightarrow> length (obj_delete obj k) < length obj"
  unfolding obj_delete_def
  by (induction obj) (auto simp: less_Suc_eq_le split: if_splits)

lemma replaceStored_spec:
  assumes "distinct (map idKey es)"
    and "\<forall>e\<in>set es. idKey e \<notin> set Object_prototype_keys"
    and "length obj \<le> n"
  shows "\<exists>n'. replaceStored es obj n =
      (map (\<lambda>e. case map_of obj (idKey e) of Some v \<Rightarrow> v | None \<Rightarrow> e) es,
       filter (\<lambda>p. fst p \<notin> idKey ` set es) obj, n')
     \<and> length (filter (\<lambda>p. fst p \<notin> idKey ` set es) obj) \<le> n'"
  using assms
proof (induction es arbitrary: obj n)
  case Nil
  then show ?case by simp
next
  case (Cons e es)
  show ?case
  proof (cases "map_of obj (idKey e)")
    case None
    with Cons.prems have get: "(if 0 < n then obj_get obj (idKey e) else Undefined) = Undefined"
      by (simp add: obj_get_def)
    from Cons.prems obtain n' where
      ih: "replaceStored es obj n =
        (map (\<lambda>e. case map_of obj (idKey e) of Some v \<Rightarrow> v | None \<Rightarrow> e) es,
         filter (\<lambda>p. fst p \<notin> idKey ` set es) obj, n')"
      and le: "length (filter (\<lambda>p. fst p \<notin> idKey ` set es) obj) \<le> n'"
      using Cons.IH[of obj n] by auto
    from None have "\<And>p. p \<in> set obj \<Longrightarrow> fst p \<noteq> idKey e"
      by (metis map_of_eq_None_iff image_eqI)
    then have "filter (\<lambda>p. fst p \<notin> idKey ` set (e # es)) obj = filter (\<lambda>p. fst p \<notin> idKey ` set es) obj"
      by (intro filter_cong) auto
    with ih le None get show ?thesis by simp
  next
    case (Some v)
    then have "obj \<noteq> []" by auto
    with Cons.prems have n: "0 < n" by (cases obj) auto
    with Some have get: "(if 0 < n then obj_get obj (idKey e) else Undefined) = Own v"
      by (simp add: obj_get_def)
    from Some have "length (obj_delete obj (idKey e)) < length obj"
      by (intro length_obj_delete) simp
    with Cons.prems have "length (obj_delete obj (idKey e)) \<le> n - 1" by simp
    with Cons.prems obtain n' where
      ih: "replaceStored es (obj_delete obj (idKey e)) (n - 1) =
        (map (\<lambda>e'. case map_of (obj_delete obj (idKey e)) (idKey e') of Some v \<Rightarrow> v | None \<Rightarrow> e') es,
         filter (\<lambda>p. fst p \<notin> idKey ` set es) (obj_delete obj (idKey e)), n')"
      and le: "length (filter (\<lambda>p. fst p \<notin> idKey ` set es) (obj_delete obj (idKey e))) \<le> n'"
      using Cons.IH[of "obj_delete obj (idKey e)" "n - 1"] by auto
    from Cons.prems(1) have "idKey e \<notin> idKey ` set es" by simp
    then have "\<And>e'. e' \<in> set es \<Longrightarrow> idKey e' \<noteq> idKey e" by (metis imageI)
    then have m: "map (\<lambda>e'. case map_of (obj_delete obj (idKey e)) (idKey e') of Some v \<Rightarrow> v | None \<Rightarrow> e') es
       = map (\<lambda>e. case map_of obj (idKey e) of Some v \<Rightarrow> v | None \<Rightarrow> e) es"
      by (intro map_cong) (auto simp: map_of_obj_delete)
    have f: "filter (\<lambda>p. fst p \<notin> idKey ` set es) (obj_delete obj (idKey e))
        = filter (\<lambda>p. fst p \<notin> idKey ` set (e # es)) obj"
      unfolding obj_delete_def filter_filter by (intro filter_cong) auto
    from ih le show ?thesis unfolding m f using get Some by simp
  qed
qed


lemma map_of_obj_put:
  "map_of (obj_put ps k v) k' = (if k' = k then Some v else map_of ps k')"
  by (induction ps) auto

lemma readAll_saveAll:
  "priv_readAll appKey (priv_saveAll appKey ps c es) c = es"
  by (simp add: priv_readAll_def priv_saveAll_def persister_read_def persister_write_def map_of_obj_put)

lemma remainingEntities_Nil: "remainingEntities [] = []"
  by (simp add: remainingEntities_def Object_keys_def)

lemma priv_update_spec:
  assumes "distinct (map idKey (priv_readAll appKey ps c))"
    and "\<forall>e\<in>set (priv_readAll appKey ps c). idKey e \<notin> set Object_prototype_keys"
  shows "priv_readAll appKey (priv_update appKey ps c vs) c =
       map (\<lambda>e. case map_of (keyBy vs) (idKey e) of Some v \<Rightarrow> v | None \<Rightarrow> e) (priv_readAll appKey ps c)
       @ remainingEntities (filter (\<lambda>p. fst p \<notin> idKey ` set (priv_readAll appKey ps c)) (keyBy vs))"
proof -
  have len: "length (keyBy vs) \<le> length vs"
  proof -
    have "length (obj_put obj k v) \<le> Suc (length obj)" for obj :: "jsval jsobj" and k v
      by (induction obj) auto
    then have "length (fold (\<lambda>v obj. obj_put obj (idKey v) v) ws acc) \<le> length acc + length ws" for ws acc
    proof (induction ws arbitrary: acc)
      case Nil then show ?case by simp
    next
      case (Cons w ws)
      have "length (fold (\<lambda>v obj. obj_put obj (idKey v) v) ws (obj_put acc (idKey w) w))
          \<le> length (obj_put acc (idKey w) w) + length ws"
        by (rule Cons.IH) (rule Cons.prems)
      also have "\<dots> \<le> Suc (length acc) + length ws"
        using Cons.prems[of acc "idKey w" w] by simp
      finally show ?case by simp
    qed
    from this[of vs "[]"] show ?thesis by (simp add: keyBy_def)
  qed
  from replaceStored_spec[OF assms len] obtain n' where
    rs: "replaceStored (priv_readAll appKey ps c) (keyBy vs) (length vs) =
      (map (\<lambda>e. case map_of (keyBy vs) (idKey e) of Some v \<Rightarrow> v | None \<Rightarrow> e) (priv_readAll appKey ps c),
       filter (\<lambda>p. fst p \<notin> idKey ` set (priv_readAll appKey ps c)) (keyBy vs), n')"
    and le: "length (filter (\<lambda>p. fst p \<notin> idKey ` set (priv_readAll appKey ps c)) (keyBy vs)) \<le> n'"
    by blast
  show ?thesis
  proof (cases "0 < n'")
    case True
    with rs show ?thesis by (simp add: priv_update_def readAll_saveAll)
  next
    case False
    with le have "filter (\<lambda>p. fst p \<notin> idKey ` set (priv_readAll appKey ps c)) (keyBy vs) = []" by simp
    with rs False show ?thesis by (simp add: priv_update_def readAll_saveAll remainingEntities_Nil)
  qed
qed

lemma entity_id_plain:
  "entity_id_ok i \<Longrightarrow> i \<notin> set Object_prototype_keys \<and> \<not> is_array_index i"
  by (auto simp: entity_id_ok_def Object_prototype_keys_def is_array_index_def)

lemma idKey_eq_iff:
  "has_id a \<Longrightarrow> has_id b \<Longrightarrow> (idKey (Entity a) = idKey (Entity b)) = (eid a = eid b)"
  by (auto simp: has_id_def idKey_def)

lemma Object_keys_perm: "mset (Object_keys obj) = mset (map fst obj)"
  by (simp add: Object_keys_def Let_def)

lemma Object_keys_plain:
  assumes "\<forall>k\<in>fst ` set obj. \<not> is_array_index k"
  shows "Object_keys obj = map fst obj"
proof -
  from assms have "filter is_array_index (map fst obj) = []"
    by (auto simp: filter_empty_conv)
  moreover from assms have "filter (\<lambda>k. \<not> is_array_index k) (map fst obj) = map fst obj"
    by (auto simp: filter_id_conv)
  ultimately show ?thesis
    by (simp add: Object_keys_def)
qed

lemma remainingEntities_lookup:
  assumes "set ks \<subseteq> fst ` set obj"
  shows "concat (map (\<lambda>k. case map_of obj k of Some v \<Rightarrow> [v] | None \<Rightarrow> []) ks)
       = map (\<lambda>k. the (map_of obj k)) ks"
  using assms
proof (induction ks)
  case Nil
  then show ?case by simp
next
  case (Cons k ks)
  then have "k \<in> fst ` set obj" by simp
  then obtain v where "map_of obj k = Some v"
    by (metis map_of_eq_None_iff not_Some_eq)
  with Cons show ?case by simp
qed

lemma lookup_own:
  assumes "distinct (map fst obj)"
  shows "map (\<lambda>k. the (map_of obj k)) (map fst obj) = map snd obj"
proof -
  have "the (map_of obj (fst p)) = snd p" if "p \<in> set obj" for p
    using that assms by (metis map_of_eq_Some_iff option.sel prod.collapse)
  then show ?thesis by (simp add: o_def)
qed

lemma remainingEntities_perm:
  assumes "distinct (map fst obj)"
  shows "mset (remainingEntities obj) = mset (map snd obj)"
proof -
  have "set (Object_keys obj) = fst ` set obj"
    using Object_keys_perm[of obj] by (metis mset_eq_setD set_map)
  then have "remainingEntities obj = map (\<lambda>k. the (map_of obj k)) (Object_keys obj)"
    unfolding remainingEntities_def by (intro remainingEntities_lookup) simp
  then have "mset (remainingEntities obj) = image_mset (\<lambda>k. the (map_of obj k)) (mset (Object_keys obj))"
    by simp
  also have "\<dots> = image_mset (\<lambda>k. the (map_of obj k)) (mset (map fst obj))"
    by (simp only: Object_keys_perm)
  also have "\<dots> = mset (map (\<lambda>k. the (map_of obj k)) (map fst obj))"
    by (simp only: mset_map)
  also have "\<dots> = mset (map snd obj)"
    by (simp only: lookup_own[OF assms])
  finally show ?thesis .
qed

lemma remainingEntities_plain:
  assumes "distinct (map fst obj)" and "\<forall>k\<in>fst ` set obj. \<not> is_array_index k"
  shows "remainingEntities obj = map snd obj"
proof -
  have "remainingEntities obj = map (\<lambda>k. the (map_of obj k)) (map fst obj)"
    unfolding remainingEntities_def Object_keys_plain[OF assms(2)]
    by (intro remainingEntities_lookup) simp
  then show ?thesis by (simp only: lookup_own[OF assms(1)])
qed

lemma map_of_keyed_find:
  assumes "list_all has_id I" and "has_id s"
  shows "map_of (map (\<lambda>v. (idKey v, v)) (map Entity I)) (idKey (Entity s))
       = map_option Entity (find (\<lambda>i. eid i = eid s) I)"
  using assms(1)
proof (induction I)
  case Nil
  then show ?case by simp
next
  case (Cons i I)
  then have "has_id i" by simp
  from idKey_eq_iff[OF this assms(2)] Cons show ?case by auto
qed

lemma unmatched_iff:
  assumes "list_all has_id S" and "has_id i"
  shows "(idKey (Entity i) \<notin> idKey ` set (map Entity S)) = (eid i \<notin> set (map eid S))"
proof -
  have "(\<exists>s\<in>set S. idKey (Entity i) = idKey (Entity s)) = (\<exists>s\<in>set S. eid i = eid s)"
    using idKey_eq_iff[OF assms(2)] assms(1) by (auto simp: list_all_iff)
  then show ?thesis by (auto simp: image_iff)
qed

lemma keep_unmatched:
  assumes "list_all has_id S" and "list_all has_id I"
  shows "filter (\<lambda>p. fst p \<notin> idKey ` set (map Entity S)) (map (\<lambda>v. (idKey v, v)) (map Entity I))
      = map (\<lambda>v. (idKey v, v)) (map Entity (filter (\<lambda>i. eid i \<notin> set (map eid S)) I))"
  using assms(2)
proof (induction I)
  case Nil
  then show ?case by simp
next
  case (Cons i I)
  then have "has_id i" by simp
  from unmatched_iff[OF assms(1) this] Cons show ?case by simp
qed

lemma eid_replaced:
  "eid (case find (\<lambda>i. eid i = eid s) I of Some i \<Rightarrow> i | None \<Rightarrow> s) = eid s"
  by (induction I) auto

lemma distinct_idKey:
  assumes "list_all has_id xs" and "distinct (map eid xs)"
  shows "distinct (map idKey (map Entity xs))"
  using assms
proof (induction xs)
  case Nil
  then show ?case by simp
next
  case (Cons x xs)
  then have wx: "has_id x" and wxs: "list_all has_id xs" by simp_all
  from unmatched_iff[OF wxs wx] Cons.prems(2) have "idKey (Entity x) \<notin> idKey ` set (map Entity xs)"
    by simp
  moreover from Cons have "distinct (map idKey (map Entity xs))" by simp
  ultimately show ?case by (simp add: image_image)
qed

lemma stored_not_inherited:
  assumes "list_all has_id S" and "list_all (\<lambda>s. \<not> inherited_id s) S"
  shows "\<forall>e\<in>set (map Entity S). idKey e \<notin> set Object_prototype_keys"
proof
  fix e assume "e \<in> set (map Entity S)"
  then obtain s where s: "s \<in> set S" and e: "e = Entity s" by auto
  from s assms have "has_id s" "\<not> inherited_id s" by (simp_all add: list_all_iff)
  then show "idKey e \<notin> set Object_prototype_keys"
    unfolding e by (auto simp: has_id_def inherited_id_def idKey_def)
qed

lemma replaced_by_find:
  assumes S: "list_all has_id S" and I: "list_all has_id I"
  shows "map (\<lambda>e. case map_of (map (\<lambda>v. (idKey v, v)) (map Entity I)) (idKey e) of Some v \<Rightarrow> v | None \<Rightarrow> e) (map Entity S)
      = map Entity (map (\<lambda>s. case find (\<lambda>i. eid i = eid s) I of Some i \<Rightarrow> i | None \<Rightarrow> s) S)"
  using S
proof (induction S)
  case Nil
  then show ?case by simp
next
  case (Cons s S)
  then have "has_id s" by simp
  from map_of_keyed_find[OF I this] Cons show ?case by (simp split: option.splits)
qed

lemma unmatched_object:
  assumes S: "list_all has_id S" and I: "list_all has_id I" and dI: "distinct (map eid I)"
  shows "filter (\<lambda>p. fst p \<notin> idKey ` set (map Entity S)) (map (\<lambda>v. (idKey v, v)) (map Entity I))
        = map (\<lambda>v. (idKey v, v)) (map Entity (filter (\<lambda>i. eid i \<notin> set (map eid S)) I))
      \<and> distinct (map fst (map (\<lambda>v. (idKey v, v)) (map Entity (filter (\<lambda>i. eid i \<notin> set (map eid S)) I))))"
proof -
  let ?J = "filter (\<lambda>i. eid i \<notin> set (map eid S)) I"
  have wJ: "list_all has_id ?J" using I by (simp add: list_all_iff)
  have dJ: "distinct (map eid ?J)" using dI by (rule distinct_map_filter)
  have "distinct (map fst (map (\<lambda>v. (idKey v, v)) (map Entity ?J)))"
    using distinct_idKey[OF wJ dJ] by (simp add: o_def)
  with keep_unmatched[OF S I] show ?thesis by simp
qed

text \<open>
  The contract of \<^verbatim>\<open>update\<close> for stored and input entities that each have an
  \<^verbatim>\<open>_id\<close>, pairwise distinct on each side, when no stored id is the name of a member of
  \<^verbatim>\<open>Object.prototype\<close> (the 24-character hex ids of the data model never are:
  \<open>entity_id_plain\<close>): \<^verbatim>\<open>update\<close> returns its input, replaces every stored entity
  whose id occurs in the input at its position and appends the input entities of the other
  ids, each once; they follow in input order unless an id is an array index
  (\<^verbatim>\<open>Object.keys\<close> lists those first). The ids of the stored array are pairwise distinct
  afterwards.
\<close>

lemma update_plain_ids:
  assumes S: "list_all has_id S" and I: "list_all has_id I"
    and plain: "list_all (\<lambda>s. \<not> inherited_id s) S"
    and dS: "distinct (map eid S)" and dI: "distinct (map eid I)"
    and stored: "priv_readAll appKey ps c = map Entity S"
  shows "fst (update appKey ps c (map Entity I)) = Inr (map Entity I)
     \<and> (\<exists>appended.
           priv_readAll appKey (snd (update appKey ps c (map Entity I))) c =
             map Entity (map (\<lambda>s. case find (\<lambda>i. eid i = eid s) I of Some i \<Rightarrow> i | None \<Rightarrow> s) S)
             @ appended
         \<and> mset appended = mset (map Entity (filter (\<lambda>i. eid i \<notin> set (map eid S)) I))
         \<and> (list_all (\<lambda>i. \<not> is_array_index (idKey (Entity i))) I \<longrightarrow>
               appended = map Entity (filter (\<lambda>i. eid i \<notin> set (map eid S)) I)))
     \<and> distinct (map jsval_id (priv_readAll appKey (snd (update appKey ps c (map Entity I))) c))"
proof -
  let ?F = "filter (\<lambda>i. eid i \<notin> set (map eid S)) I"
  let ?R = "map (\<lambda>s. case find (\<lambda>i. eid i = eid s) I of Some i \<Rightarrow> i | None \<Rightarrow> s) S"
  let ?obj = "map (\<lambda>v. (idKey v, v)) (map Entity ?F)"
  define appended where "appended = remainingEntities ?obj"
  have a1: "distinct (map idKey (priv_readAll appKey ps c))"
    unfolding stored by (rule distinct_idKey[OF S dS])
  have a2: "\<forall>e\<in>set (priv_readAll appKey ps c). idKey e \<notin> set Object_prototype_keys"
    unfolding stored by (rule stored_not_inherited[OF S plain])
  have kb: "keyBy (map Entity I) = map (\<lambda>v. (idKey v, v)) (map Entity I)"
    by (rule keyBy_distinct[OF distinct_idKey[OF I dI]])
  from unmatched_object[OF S I dI] have
    keep: "filter (\<lambda>p. fst p \<notin> idKey ` set (map Entity S)) (map (\<lambda>v. (idKey v, v)) (map Entity I)) = ?obj"
    and dobj: "distinct (map fst ?obj)"
    by simp_all
  have new: "priv_readAll appKey (snd (update appKey ps c (map Entity I))) c = map Entity ?R @ appended"
    using priv_update_spec[OF a1 a2, of "map Entity I"]
    unfolding stored kb replaced_by_find[OF S I] keep appended_def
    by (simp add: update_def)
  have snd_obj: "map snd ?obj = map Entity ?F"
    by (simp add: o_def)
  have perm: "mset appended = mset (map Entity ?F)"
    unfolding appended_def remainingEntities_perm[OF dobj] snd_obj ..
  have inorder: "appended = map Entity ?F" if "list_all (\<lambda>i. \<not> is_array_index (idKey (Entity i))) I"
  proof -
    from that have "\<forall>k\<in>fst ` set ?obj. \<not> is_array_index k"
      by (auto simp: list_all_iff)
    from remainingEntities_plain[OF dobj this] show ?thesis
      unfolding appended_def snd_obj .
  qed
  have ids: "map jsval_id (map Entity ?R) = map eid S"
    by (simp add: o_def eid_replaced)
  have dSF: "distinct (map eid S @ map eid ?F)"
    using dS distinct_map_filter[OF dI, of "\<lambda>i. eid i \<notin> set (map eid S)"]
    by auto (metis imageI)
  have "mset (map jsval_id (map Entity ?R @ appended)) = mset (map eid S @ map eid ?F)"
  proof -
    have "mset (map jsval_id appended) = image_mset jsval_id (mset (map Entity ?F))"
      unfolding perm[symmetric] by simp
    also have "\<dots> = mset (map eid ?F)"
      by (simp add: multiset.map_comp o_def)
    finally show ?thesis
      unfolding map_append ids by simp
  qed
  from mset_eq_imp_distinct_iff[OF this] dSF
  have dist: "distinct (map jsval_id (map Entity ?R @ appended))"
    by simp
  have ret: "fst (update appKey ps c (map Entity I)) = Inr (map Entity I)"
    by (simp add: update_def)
  from new perm inorder have ex: "\<exists>appended.
           priv_readAll appKey (snd (update appKey ps c (map Entity I))) c = map Entity ?R @ appended
         \<and> mset appended = mset (map Entity ?F)
         \<and> (list_all (\<lambda>i. \<not> is_array_index (idKey (Entity i))) I \<longrightarrow> appended = map Entity ?F)"
    by blast
  from dist have dist': "distinct (map jsval_id (priv_readAll appKey (snd (update appKey ps c (map Entity I))) c))"
    unfolding new .
  from ret ex dist' show ?thesis by (intro conjI)
qed

lemma update_plain_ids_example:
  "priv_readAll ''kid_1'' (snd (update ''kid_1'' books_store ''books'' [Entity book_c, Entity book_a_new])) ''books''
     = [Entity book_a_new, Entity book_b, Entity book_c]"
proof -
  have S: "list_all has_id [book_a, book_b]"
    by (simp add: has_id_def book_a_def book_b_def)
  have I: "list_all has_id [book_c, book_a_new]"
    by (simp add: has_id_def book_c_def book_a_new_def)
  have ok: "entity_id_ok ''5b7c1d2e3f4a5b6c7d8e9f01''" "entity_id_ok ''5b7c1d2e3f4a5b6c7d8e9f02''"
    "entity_id_ok ''5b7c1d2e3f4a5b6c7d8e9f03''"
    by (simp_all add: entity_id_ok_def is_hex_def)
  have plain: "list_all (\<lambda>s. \<not> inherited_id s) [book_a, book_b]"
    using ok[THEN entity_id_plain] by (simp add: inherited_id_def book_a_def book_b_def)
  have noindex: "list_all (\<lambda>i. \<not> is_array_index (idKey (Entity i))) [book_c, book_a_new]"
    using ok[THEN entity_id_plain] by (simp add: idKey_def book_c_def book_a_new_def)
  have dS: "distinct (map eid [book_a, book_b])"
    by (simp add: book_a_def book_b_def)
  have dI: "distinct (map eid [book_c, book_a_new])"
    by (simp add: book_c_def book_a_new_def)
  have stored: "priv_readAll ''kid_1'' books_store ''books'' = map Entity [book_a, book_b]"
    by (simp add: priv_readAll_def persister_read_def priv_formCollectionKey_def books_store_def)
  from update_plain_ids[OF S I plain dS dI stored] noindex
  have "priv_readAll ''kid_1'' (snd (update ''kid_1'' books_store ''books'' (map Entity [book_c, book_a_new]))) ''books''
      = map Entity (map (\<lambda>s. case find (\<lambda>i. eid i = eid s) [book_c, book_a_new] of Some i \<Rightarrow> i | None \<Rightarrow> s) [book_a, book_b])
        @ map Entity (filter (\<lambda>i. eid i \<notin> set (map eid [book_a, book_b])) [book_c, book_a_new])"
    by auto
  then show ?thesis
    by (simp add: book_a_def book_b_def book_c_def book_a_new_def)
qed

text \<open>
  C10. The claim fails for a stored entity whose \<^verbatim>\<open>_id\<close> is the name of a member of
  \<^verbatim>\<open>Object.prototype\<close>. The stored collection holds one entity, with the id
  \<^verbatim>\<open>constructor\<close>; the input is one entity with another id. The test
  \<^verbatim>\<open>updateEntitiesById[entity._id]\<close> reads the inherited member, which is truthy: the
  stored entity, whose id does not occur in the input, is overwritten with that member,
  the counter reaches zero, and the input entity is not appended. (For stored ids that
  name no such member the claim holds: \<open>update_plain_ids\<close>.)
\<close>

theorem update_overwrites_entity_with_inherited_id:
  "priv_readAll ''kid_1'' odd_store ''books'' = [Entity book_odd]
   \<and> update ''kid_1'' odd_store ''books'' [Entity book_c]
       = (Inr [Entity book_c], [(''kid_1.books'', [ProtoMember ''constructor''])])"
  by (simp add: update_def priv_update_def priv_readAll_def priv_saveAll_def persister_read_def
      persister_write_def priv_formCollectionKey_def keyBy_def idKey_def obj_get_def obj_delete_def
      Object_prototype_keys_def book_odd_def book_c_def odd_store_def)


subsection \<open>splitQueryIntoPages\<close>

lemma ceil_div_bounds:
  assumes "0 < p"
  shows "n \<le> Math_ceil_div n p * p \<and> (Math_ceil_div n p - 1) * p < n"
proof -
  define d where "d = (- n) div p"
  define m where "m = (- n) mod p"
  have e: "d * p + m = - n"
    unfolding d_def m_def by simp
  from assms have m: "0 \<le> m" "m < p"
    unfolding m_def by simp_all
  have c: "Math_ceil_div n p = - d"
    using assms by (simp add: Math_ceil_div_def d_def)
  have "(- d) * p = n + m" "(- d - 1) * p = n + m - p"
    using e by (simp_all add: algebra_simps)
  with m show ?thesis unfolding c by simp
qed

lemma ceil_div_ceiling:
  "0 < p \<Longrightarrow> Math_ceil_div n p = \<lceil>real_of_int n / real_of_int p\<rceil>"
  by (simp add: Math_ceil_div_def ceiling_divide_eq_div)

lemma sum_page_limits:
  assumes "0 < p" and "0 \<le> n" and "int k * p \<le> n + p"
  shows "sum_list (map (\<lambda>i. min (n - int i * p) p) [0..<k]) = min n (int k * p)"
  using assms(3)
proof (induction k)
  case 0
  with assms show ?case by simp
next
  case (Suc k)
  then have kp: "int k * p \<le> n" by (simp add: algebra_simps)
  with assms(1) have "int k * p \<le> n + p" by simp
  from Suc.IH[OF this] kp have "sum_list (map (\<lambda>i. min (n - int i * p) p) [0..<k]) = int k * p"
    by simp
  then show ?case using kp by (simp add: algebra_simps min_def)
qed

text \<open>
  C9. For a page size \<open>p > 0\<close> and a total count \<open>n \<ge> 0\<close>, \<^verbatim>\<open>splitQueryIntoPages\<close>
  returns \<open>\<lceil>n / p\<rceil>\<close> page queries; page \<open>i\<close> has skip \<open>s + i * p\<close> and the
  positive limit \<open>min (n - i * p) p\<close>; the limits add up to \<open>n\<close>, and every page but the
  last is followed by the page that starts where its window ends.
\<close>

theorem splitQueryIntoPages_pages:
  assumes p: "0 < p" and n: "0 \<le> n"
  shows "\<exists>pages. splitQueryIntoPages q (Some p) (Some n) = Inr pages
      \<and> int (length pages) = \<lceil>real_of_int n / real_of_int p\<rceil>
      \<and> (\<forall>i<length pages. skip_q (pages ! i) = skip_q q + int i * p
                            \<and> limit_q (pages ! i) = Some (min (n - int i * p) p)
                            \<and> 0 < min (n - int i * p) p)
      \<and> sum_list (page_limits pages) = n
      \<and> (\<forall>i. Suc i < length pages \<longrightarrow>
             skip_q (pages ! Suc i) = skip_q (pages ! i) + page_limits pages ! i)"
proof -
  define k where "k = nat (Math_ceil_div n p)"
  define pages where "pages = map (\<lambda>i. q\<lparr>skip_q := skip_q q + int i * p,
                            limit_q := Some (min (n - int i * p) p)\<rparr>) [0..<k]"
  from ceil_div_bounds[OF p, of n] n have "0 \<le> Math_ceil_div n p * p"
    by linarith
  with p have nonneg: "0 \<le> Math_ceil_div n p"
    by (simp add: zero_le_mult_iff)
  then have ik: "int k = Math_ceil_div n p" by (simp add: k_def)
  have split: "splitQueryIntoPages q (Some p) (Some n) = Inr pages"
    by (simp add: splitQueryIntoPages_def times_def pages_def k_def Let_def)
  have len: "length pages = k" by (simp add: pages_def)
  have cnt: "int (length pages) = \<lceil>real_of_int n / real_of_int p\<rceil>"
    unfolding len ik by (rule ceil_div_ceiling[OF p])
  have upper: "n \<le> int k * p" and lower: "(int k - 1) * p < n"
    using ceil_div_bounds[OF p, of n] unfolding ik by simp_all
  have nth: "skip_q (pages ! i) = skip_q q + int i * p
           \<and> limit_q (pages ! i) = Some (min (n - int i * p) p)
           \<and> 0 < min (n - int i * p) p" if "i < length pages" for i
  proof -
    from that len have "int i \<le> int k - 1" by simp
    with p have "int i * p \<le> (int k - 1) * p" by (intro mult_right_mono) simp_all
    with lower have "0 < n - int i * p" by simp
    with p that len show ?thesis by (simp add: pages_def)
  qed
  have lim: "page_limits pages = map (\<lambda>i. min (n - int i * p) p) [0..<k]"
    by (simp add: page_limits_def pages_def o_def)
  from lower have "int k * p \<le> n + p" by (simp add: algebra_simps)
  from sum_page_limits[OF p n this] upper have total: "sum_list (page_limits pages) = n"
    unfolding lim by simp
  have contiguous: "skip_q (pages ! Suc i) = skip_q (pages ! i) + page_limits pages ! i"
    if "Suc i < length pages" for i
  proof -
    from that len have "int (Suc i) \<le> int k - 1" by simp
    with p have "int (Suc i) * p \<le> (int k - 1) * p" by (intro mult_right_mono) simp_all
    with lower have "p \<le> n - int i * p" by (simp add: algebra_simps)
    then have "min (n - int i * p) p = p" by simp
    with that len show ?thesis unfolding lim by (simp add: pages_def algebra_simps)
  qed
  from split cnt nth total contiguous show ?thesis by blast
qed

theorem splitQueryIntoPages_pages_witness:
  "\<exists>pages. splitQueryIntoPages new_Query (Some 2) (Some 5) = Inr pages
      \<and> length pages = 3 \<and> sum_list (page_limits pages) = 5
      \<and> map skip_q pages = [0, 2, 4] \<and> map limit_q pages = [Some 2, Some 2, Some 1]"
proof -
  have p: "(0::int) < 2" and n: "(0::int) \<le> 5" by simp_all
  from splitQueryIntoPages_pages[OF p n, of new_Query] obtain pages where
    split: "splitQueryIntoPages new_Query (Some 2) (Some 5) = Inr pages"
    and len: "int (length pages) = \<lceil>real_of_int 5 / real_of_int 2\<rceil>"
    and total: "sum_list (page_limits pages) = 5"
    by blast
  have "\<lceil>real_of_int 5 / real_of_int 2\<rceil> = 3" by simp
  with len have l3: "length pages = 3" by simp
  from split have "pages = [new_Query\<lparr>skip_q := 0, limit_q := Some 2\<rparr>,
      new_Query\<lparr>skip_q := 2, limit_q := Some 2\<rparr>, new_Query\<lparr>skip_q := 4, limit_q := Some 1\<rparr>]"
    by (simp add: splitQueryIntoPages_def Math_ceil_div_def times_def new_Query_def Let_def
        upt_conv_Cons)
  with split l3 total show ?thesis by (simp add: new_Query_def)
qed

subsection \<open>push: the in-flight marker\<close>

lemma obj_get_put:
  "obj_get (obj_put obj k v) k' = (if k' = k then Own v else obj_get obj k')"
proof -
  have "map_of (obj_put obj k v) k' = (if k' = k then Some v else map_of obj k')"
    by (induction obj) auto
  then show ?thesis by (simp add: obj_get_def)
qed

lemma obj_get_delete:
  "obj_get (obj_delete obj k) k' =
     (if k' = k then (if k \<in> set Object_prototype_keys then Inherited k else Undefined)
      else obj_get obj k')"
proof -
  have "map_of (obj_delete obj k) k' = (if k' = k then None else map_of obj k')"
    by (induction obj) (auto simp: obj_delete_def)
  then show ?thesis by (simp add: obj_get_def)
qed

lemma inProgress_markPushStart:
  "priv_pushIsInProgress (priv_markPushStart st (Some c)) (Some c') =
     (if c' = c then True else priv_pushIsInProgress st (Some c'))"
  by (simp add: priv_markPushStart_def priv_pushIsInProgress_def obj_get_put)

lemma push_of_an_inherited_name_is_rejected:
  "c \<in> set Object_prototype_keys \<Longrightarrow> push env appKey c q st = (Inl SyncError, st)"
proof -
  assume c: "c \<in> set Object_prototype_keys"
  then have "c \<noteq> []" by (auto simp: Object_prototype_keys_def)
  moreover from c have "priv_pushIsInProgress st (Some c)"
    by (simp add: priv_pushIsInProgress_def obj_get_def split: option.splits)
  ultimately show ?thesis by (simp add: push_def push_begin_def)
qed



subsection \<open>push: processing the sync items\<close>

lemma find_by_id_Some: "find_by_id i vs = Some e \<Longrightarrow> eid e = Some i"
  by (induction i vs rule: find_by_id.induct) (auto split: if_splits)



lemma pushCreate_result:
  "\<exists>result st'. priv_pushCreate env appKey c ent st = (Inr result, st')
     \<and> r_id result = eid ent \<and> r_operation result = Create
     \<and> syncState st' = syncState st
     \<and> pushTrackingByCollection st' = pushTrackingByCollection st"
  by (simp add: priv_pushCreate_def priv_sanitizeOfflineEntity_def Let_def priv_getPushOpResult_def
      split: sum.splits)

lemma pushUpdate_result:
  "\<exists>result st'. priv_pushUpdate env appKey c ent st = (Inr result, st')
     \<and> r_id result = eid ent \<and> r_operation result = Update
     \<and> syncState st' = syncState st
     \<and> pushTrackingByCollection st' = pushTrackingByCollection st"
  by (simp add: priv_pushUpdate_def Let_def priv_getPushOpResult_def split: sum.splits)

lemma pushDelete_result:
  "\<exists>result st'. priv_pushDelete env c i st = (Inr result, st')
     \<and> r_id result = Some i \<and> r_operation result = Delete
     \<and> syncState st' = syncState st
     \<and> pushTrackingByCollection st' = pushTrackingByCollection st"
  by (simp add: priv_pushDelete_def Let_def priv_getPushOpResult_def split: sum.splits)

lemma handlePushOp_result:
  assumes "case offlineEntity of Some ent \<Rightarrow> eid ent = Some (entityId item) | None \<Rightarrow> operation item = Delete"
  shows "\<exists>result st'. priv_handlePushOp env appKey c item offlineEntity st = (Inr result, st')
     \<and> r_id result = Some (entityId item) \<and> r_operation result = operation item
     \<and> syncState st' = syncState st
     \<and> pushTrackingByCollection st' = pushTrackingByCollection st"
proof (cases "operation item")
  case Create
  with assms obtain ent where e: "offlineEntity = Some ent" "eid ent = Some (entityId item)"
    by (cases offlineEntity) auto
  with Create pushCreate_result[of env appKey c ent st] show ?thesis
    by (simp add: priv_handlePushOp_def)
next
  case Update
  with assms obtain ent where e: "offlineEntity = Some ent" "eid ent = Some (entityId item)"
    by (cases offlineEntity) auto
  with Update pushUpdate_result[of env appKey c ent st] show ?thesis
    by (simp add: priv_handlePushOp_def)
next
  case Delete
  with pushDelete_result[of env c "entityId item" st] show ?thesis
    by (simp add: priv_handlePushOp_def)
next
  case (UnexpectedOp name)
  then show ?thesis
    by (simp add: priv_handlePushOp_def priv_getPushOpResult_def)
qed

lemma pushItem_cases:
  "(\<exists>result st'. priv_pushItem env appKey c item st = (Inr result, st')
       \<and> r_id result = Some (entityId item) \<and> r_operation result = operation item
       \<and> syncState st' = syncState st
       \<and> pushTrackingByCollection st' = pushTrackingByCollection st)
   \<or> (readById appKey (offline st) c (entityId item) = Inl NotFoundError \<and> operation item \<noteq> Delete
       \<and> (\<exists>ss. removeSyncItemForEntityId env c (entityId item) (syncState st) = Inr ss
               \<and> priv_pushItem env appKey c item st = (Inl NotFoundError, st\<lparr>syncState := ss\<rparr>)))
   \<or> (\<exists>err. priv_pushItem env appKey c item st = (Inl err, st))"
proof (cases "readById appKey (offline st) c (entityId item)")
  case (Inr ent)
  then have "eid ent = Some (entityId item)"
    by (auto simp: readById_def split: option.splits dest: find_by_id_Some)
  then have "case Some ent of Some ent \<Rightarrow> eid ent = Some (entityId item) | None \<Rightarrow> operation item = Delete"
    by simp
  from handlePushOp_result[OF this, of env appKey c st] Inr show ?thesis
    by (simp add: priv_pushItem_def)
next
  case (Inl err)
  then have nf: "err = NotFoundError"
    by (auto simp: readById_def split: option.splits)
  show ?thesis
  proof (cases "operation item = Delete")
    case True
    then have "case None of Some ent \<Rightarrow> eid ent = Some (entityId item) | None \<Rightarrow> operation item = Delete"
      by simp
    from handlePushOp_result[OF this, of env appKey c st] Inl nf True show ?thesis
      by (simp add: priv_pushItem_def)
  next
    case False
    with Inl nf show ?thesis
      by (cases "removeSyncItemForEntityId env c (entityId item) (syncState st)")
         (simp_all add: priv_pushItem_def)
  qed
qed

lemma processSyncItem_full:
  "\<exists>result st'. priv_processSyncItem env appKey c item st = (Inr result, st')
     \<and> r_id result = Some (entityId item) \<and> r_operation result = operation item
     \<and> pushTrackingByCollection st' = pushTrackingByCollection st
     \<and> (r_error result = None \<longrightarrow>
           removeSyncItemForEntityId env (si_collection item) (entityId item) (syncState st)
             = Inr (syncState st'))
     \<and> (r_error result \<noteq> None \<longrightarrow>
           syncState st' = syncState st
           \<or> (readById appKey (offline st) c (entityId item) = Inl NotFoundError
              \<and> operation item \<noteq> Delete \<and> r_error result = Some NotFoundError
              \<and> removeSyncItemForEntityId env c (entityId item) (syncState st) = Inr (syncState st')))"
proof -
  consider
    (ok) result st1 where "priv_pushItem env appKey c item st = (Inr result, st1)"
      "r_id result = Some (entityId item)" "r_operation result = operation item"
      "syncState st1 = syncState st" "pushTrackingByCollection st1 = pushTrackingByCollection st"
  | (dropped) ss where "readById appKey (offline st) c (entityId item) = Inl NotFoundError"
      "operation item \<noteq> Delete"
      "removeSyncItemForEntityId env c (entityId item) (syncState st) = Inr ss"
      "priv_pushItem env appKey c item st = (Inl NotFoundError, st\<lparr>syncState := ss\<rparr>)"
  | (failed) err where "priv_pushItem env appKey c item st = (Inl err, st)"
    using pushItem_cases[of env appKey c item st] by blast
  then show ?thesis
  proof cases
    case ok
    show ?thesis
    proof (cases "r_error result")
      case (Some e)
      with ok show ?thesis by (simp add: priv_processSyncItem_def)
    next
      case None
      with ok show ?thesis
        by (cases "removeSyncItemForEntityId env (si_collection item) (entityId item) (syncState st)")
           (simp_all add: priv_processSyncItem_def priv_getPushOpResult_def)
    qed
  next
    case dropped
    then show ?thesis
      by (simp add: priv_processSyncItem_def priv_getPushOpResult_def)
  next
    case failed
    then show ?thesis
      by (simp add: priv_processSyncItem_def priv_getPushOpResult_def)
  qed
qed







lemma processSyncItems_spec:
  "\<exists>results st'. priv_processSyncItems env appKey c items st = (Inr results, st')
     \<and> length results = length items
     \<and> map r_id results = map (\<lambda>item. Some (entityId item)) items
     \<and> map r_operation results = map operation items
     \<and> pushTrackingByCollection st' = pushTrackingByCollection st"
proof (induction items arbitrary: st)
  case Nil
  then show ?case by simp
next
  case (Cons item items)
  from processSyncItem_full[of env appKey c item st] obtain result st1 where
    one: "priv_processSyncItem env appKey c item st = (Inr result, st1)"
      "r_id result = Some (entityId item)" "r_operation result = operation item"
      "pushTrackingByCollection st1 = pushTrackingByCollection st"
    by blast
  from Cons.IH[of st1] obtain results st2 where
    rest: "priv_processSyncItems env appKey c items st1 = (Inr results, st2)"
      "length results = length items"
      "map r_id results = map (\<lambda>item. Some (entityId item)) items"
      "map r_operation results = map operation items"
      "pushTrackingByCollection st2 = pushTrackingByCollection st1"
    by blast
  from one rest show ?case by simp
qed

lemma push_resolves_and_clears_the_marker:
  assumes "push_begin c st = (None, st1)"
    and "getSyncItems env c (map_option (priv_getEntityIdsForQuery appKey st1 c) q) (syncState st1) = Inr items"
  shows "\<exists>results st2. push env appKey c q st = (Inr results, st2)
      \<and> length results = length items
      \<and> map r_id results = map (\<lambda>item. Some (entityId item)) items
      \<and> map r_operation results = map operation items
      \<and> \<not> priv_pushIsInProgress st2 (Some c)"
proof -
  from assms(1) have st1: "st1 = priv_markPushStart st (Some c)"
    and idle: "\<not> priv_pushIsInProgress st (Some c)"
    by (auto simp: push_begin_def split: if_splits)
  from idle have plain: "c \<notin> set Object_prototype_keys"
    by (auto simp: priv_pushIsInProgress_def obj_get_def split: option.splits if_splits)
  from processSyncItems_spec[of env appKey c items st1] obtain results st2 where
    p: "priv_processSyncItems env appKey c items st1 = (Inr results, st2)"
      "length results = length items"
      "map r_id results = map (\<lambda>item. Some (entityId item)) items"
      "map r_operation results = map operation items"
      "pushTrackingByCollection st2 = pushTrackingByCollection st1"
    by blast
  have "\<not> priv_pushIsInProgress (priv_markPushEnd st2 (Some c)) (Some c)"
    using plain by (simp add: priv_markPushEnd_def priv_pushIsInProgress_def obj_get_delete)
  with assms p show ?thesis
    by (simp add: push_def push_settle_def Let_def)
qed

lemma push_rejection_keeps_the_marker_general:
  assumes "push_begin c st = (None, st1)"
    and "c \<noteq> ''undefined''" and "\<not> priv_pushIsInProgress st (Some ''undefined'')"
    and "getSyncItems env c (map_option (priv_getEntityIdsForQuery appKey st1 c) q) (syncState st1) = Inl e"
  shows "push env appKey c q st = (Inl e, st1) \<and> priv_pushIsInProgress st1 (Some c)
       \<and> fst (push env' appKey' c q' st1) = Inl SyncError"
proof -
  from assms(1) have st1: "st1 = priv_markPushStart st (Some c)" and c: "c \<noteq> []"
    and idle: "\<not> priv_pushIsInProgress st (Some c)"
    by (auto simp: push_begin_def split: if_splits)
  from assms(2,3) have "\<not> priv_pushIsInProgress st1 None"
    using inProgress_markPushStart[of st c "''undefined''"]
    by (simp add: st1 priv_pushIsInProgress_def)
  then have e: "priv_markPushEnd st1 None = st1"
    by (simp add: priv_markPushEnd_def)
  have m: "priv_pushIsInProgress st1 (Some c)"
    by (simp add: st1 inProgress_markPushStart)
  from assms(1,4) e have "push env appKey c q st = (Inl e, st1)"
    by (simp add: push_def push_settle_def Let_def)
  moreover from m c have "fst (push env' appKey' c q' st1) = Inl SyncError"
    by (simp add: push_def push_begin_def)
  ultimately show ?thesis using m by simp
qed


text \<open>
  C1. The marker is cleared when \<^verbatim>\<open>push\<close> resolves
  (\<open>push_resolves_and_clears_the_marker\<close>), but not when it rejects. With a sync state
  manager whose \<^verbatim>\<open>getSyncItems\<close> rejects, \<^verbatim>\<open>push('books')\<close> on the idle state
  rejects with that error and leaves the marker of \<^verbatim>\<open>books\<close> set: the \<^verbatim>\<open>catch\<close>
  handler calls \<^verbatim>\<open>_markPushEnd()\<close> without the collection. The next
  \<^verbatim>\<open>push('books')\<close> is rejected as already in progress. The same holds for every
  collection name but \<^verbatim>\<open>undefined\<close> and every error of \<^verbatim>\<open>getSyncItems\<close>
  (\<open>push_rejection_keeps_the_marker_general\<close>).
\<close>

theorem push_rejection_keeps_the_marker:
  "push broken_sync_env ''kid_1'' ''books'' None idle_state
     = (Inl (OtherError ''sync table unreadable''),
        idle_state\<lparr>pushTrackingByCollection := [(''books'', ())]\<rparr>)
   \<and> priv_pushIsInProgress (idle_state\<lparr>pushTrackingByCollection := [(''books'', ())]\<rparr>) (Some ''books'')
   \<and> fst (push ref_env ''kid_1'' ''books'' None (idle_state\<lparr>pushTrackingByCollection := [(''books'', ())]\<rparr>))
       = Inl SyncError"
  by (simp add: push_def push_begin_def push_settle_def priv_pushIsInProgress_def
      priv_markPushStart_def priv_markPushEnd_def obj_get_def obj_delete_def
      idle_state_def broken_sync_env_def ref_env_def Object_prototype_keys_def)




subsection \<open>pull\<close>

lemma obj_put_keys: "fst ` set (obj_put obj k v) = insert k (fst ` set obj)"
proof -
  have "dom (map_of (obj_put obj k v)) = insert k (dom (map_of obj))"
    by (auto simp: map_of_obj_put dom_def)
  then show ?thesis by (simp add: dom_map_of_conv_image_fst)
qed

lemma keyBy_keys: "fst ` set (keyBy vs) = idKey ` set vs"
proof -
  have "fst ` set (fold (\<lambda>v obj. obj_put obj (idKey v) v) vs acc)
      = fst ` set acc \<union> idKey ` set vs" for acc
  proof (induction vs arbitrary: acc)
    case Nil
    then show ?case by simp
  next
    case (Cons v vs)
    show ?case by (simp add: Cons.IH obj_put_keys)
  qed
  from this[of "[]"] show ?thesis by (simp add: keyBy_def)
qed

lemma obj_get_keyBy_Undefined:
  "(obj_get (keyBy vs) k = Undefined) = (k \<notin> idKey ` set vs \<and> k \<notin> set Object_prototype_keys)"
proof -
  have "(map_of (keyBy vs) k = None) = (k \<notin> idKey ` set vs)"
    using keyBy_keys[of vs] by (simp add: map_of_eq_None_iff)
  then show ?thesis by (auto simp: obj_get_def split: option.splits)
qed





lemma stampCachedQuery_frame:
  "stampCachedQuery env c q b t st = (r, st1) \<Longrightarrow>
     offline st1 = offline st \<and> syncState st1 = syncState st
     \<and> pushTrackingByCollection st1 = pushTrackingByCollection st
     \<and> pushRequests st1 = pushRequests st"
  by (auto simp: stampCachedQuery_def split: sum.splits option.splits if_splits prod.splits)

lemma obj_get_delete_Undefined:
  "obj_get obj k' = Undefined \<Longrightarrow> obj_get (obj_delete obj k) k' = Undefined"
proof -
  have "map_of (obj_delete obj k) k' = (if k' = k then None else map_of obj k')"
    by (induction obj) (auto simp: obj_delete_def)
  moreover assume "obj_get obj k' = Undefined"
  ultimately show ?thesis
    by (auto simp: obj_get_def split: option.splits if_splits)
qed

lemma replaceStored_frame:
  "length (fst (replaceStored es obj n)) = length es
   \<and> (\<forall>i<length es. obj_get obj (idKey (es ! i)) = Undefined
         \<longrightarrow> fst (replaceStored es obj n) ! i = es ! i)"
proof (induction es arbitrary: obj n)
  case Nil
  then show ?case by simp
next
  case (Cons e es)
  let ?g = "if 0 < n then obj_get obj (idKey e) else Undefined"
  show ?case
  proof (cases ?g)
    case (Own v)
    obtain es' r where rs: "replaceStored es (obj_delete obj (idKey e)) (n - 1) = (es', r)"
      by (cases "replaceStored es (obj_delete obj (idKey e)) (n - 1)")
    from Cons.IH[of "obj_delete obj (idKey e)" "n - 1"] rs
    have ih: "length es' = length es"
      "\<And>i. i < length es \<Longrightarrow> obj_get (obj_delete obj (idKey e)) (idKey (es ! i)) = Undefined
          \<Longrightarrow> es' ! i = es ! i"
      by simp_all
    from Own rs have res: "fst (replaceStored (e # es) obj n) = v # es'" by simp
    from Own have ne: "obj_get obj (idKey e) \<noteq> Undefined" by (auto split: if_splits)
    show ?thesis
      unfolding res using ih ne
      by (auto simp: nth_Cons obj_get_delete_Undefined split: nat.splits)
  next
    case (Inherited m)
    obtain es' r where rs: "replaceStored es (obj_delete obj (idKey e)) (n - 1) = (es', r)"
      by (cases "replaceStored es (obj_delete obj (idKey e)) (n - 1)")
    from Cons.IH[of "obj_delete obj (idKey e)" "n - 1"] rs
    have ih: "length es' = length es"
      "\<And>i. i < length es \<Longrightarrow> obj_get (obj_delete obj (idKey e)) (idKey (es ! i)) = Undefined
          \<Longrightarrow> es' ! i = es ! i"
      by simp_all
    from Inherited rs have res: "fst (replaceStored (e # es) obj n) = ProtoMember m # es'" by simp
    from Inherited have ne: "obj_get obj (idKey e) \<noteq> Undefined" by (auto split: if_splits)
    show ?thesis
      unfolding res using ih ne
      by (auto simp: nth_Cons obj_get_delete_Undefined split: nat.splits)
  next
    case Undefined
    obtain es' r where rs: "replaceStored es obj n = (es', r)"
      by (cases "replaceStored es obj n")
    from Cons.IH[of obj n] rs
    have ih: "length es' = length es"
      "\<And>i. i < length es \<Longrightarrow> obj_get obj (idKey (es ! i)) = Undefined \<Longrightarrow> es' ! i = es ! i"
      by simp_all
    from Undefined rs have res: "fst (replaceStored (e # es) obj n) = e # es'" by simp
    show ?thesis
      unfolding res using ih
      by (auto simp: nth_Cons split: nat.splits)
  qed
qed

lemma update_frame:
  "length (priv_readAll appKey ps c) \<le> length (priv_readAll appKey (snd (update appKey ps c vs)) c)
   \<and> (\<forall>i<length (priv_readAll appKey ps c).
         idKey (priv_readAll appKey ps c ! i) \<notin> set Object_prototype_keys
         \<and> idKey (priv_readAll appKey ps c ! i) \<notin> idKey ` set vs
         \<longrightarrow> priv_readAll appKey (snd (update appKey ps c vs)) c ! i = priv_readAll appKey ps c ! i)"
proof -
  define old where "old = priv_readAll appKey ps c"
  obtain es' obj' n' where rs: "replaceStored old (keyBy vs) (length vs) = (es', obj', n')"
    by (cases "replaceStored old (keyBy vs) (length vs)") auto
  from replaceStored_frame[of old "keyBy vs" "length vs"] rs
  have len: "length es' = length old"
    and same: "\<And>i. i < length old \<Longrightarrow> obj_get (keyBy vs) (idKey (old ! i)) = Undefined \<Longrightarrow> es' ! i = old ! i"
    by simp_all
  have new: "priv_readAll appKey (snd (update appKey ps c vs)) c =
      (if 0 < n' then es' @ remainingEntities obj' else es')"
    using rs by (simp add: update_def priv_update_def readAll_saveAll old_def)
  show ?thesis
    unfolding old_def[symmetric] new using len same
    by (auto simp: nth_append obj_get_keyBy_Undefined)
qed

lemma obj_put_distinct: "distinct (map fst obj) \<Longrightarrow> distinct (map fst (obj_put obj k v))"
proof (induction obj)
  case Nil
  then show ?case by simp
next
  case (Cons p obj)
  then show ?case
    using obj_put_keys[of obj k v] by (cases p) (auto simp: image_iff)
qed

lemma fold_put_lookup:
  "map_of (fold (\<lambda>v obj. obj_put obj (idKey v) v) vs acc) k =
     (if k \<in> idKey ` set vs then Some (last (filter (\<lambda>v. idKey v = k) vs)) else map_of acc k)"
proof (induction vs arbitrary: acc)
  case Nil
  then show ?case by simp
next
  case (Cons v vs)
  show ?case
    by (auto simp: Cons.IH map_of_obj_put filter_empty_conv)
qed

lemma fold_put_distinct_keys:
  "distinct (map fst acc) \<Longrightarrow> distinct (map fst (fold (\<lambda>v obj. obj_put obj (idKey v) v) vs acc))"
  by (induction vs arbitrary: acc) (simp_all add: obj_put_distinct)

lemma keyBy_distinct_keys: "distinct (map fst (keyBy vs))"
  unfolding keyBy_def by (rule fold_put_distinct_keys) simp

lemma keyBy_lookup:
  "map_of (keyBy vs) k =
     (if k \<in> idKey ` set vs then Some (last (filter (\<lambda>v. idKey v = k) vs)) else None)"
  unfolding keyBy_def by (simp add: fold_put_lookup)

lemma keyBy_member:
  assumes "(k, v) \<in> set (keyBy vs)"
  shows "v \<in> set vs \<and> idKey v = k"
proof -
  from assms keyBy_distinct_keys[of vs] have "map_of (keyBy vs) k = Some v" by simp
  then have k: "k \<in> idKey ` set vs" and v: "v = last (filter (\<lambda>v. idKey v = k) vs)"
    by (auto simp: keyBy_lookup split: if_splits)
  from k have ne: "filter (\<lambda>v. idKey v = k) vs \<noteq> []"
    by (auto simp: filter_empty_conv)
  from last_in_set[OF ne] v have "v \<in> set (filter (\<lambda>v. idKey v = k) vs)" by simp
  then show ?thesis by simp
qed

lemma keyBy_last:
  assumes "idKey v \<notin> idKey ` set zs"
  shows "(idKey v, v) \<in> set (keyBy (ys @ v # zs))"
proof -
  from assms have "\<And>w. w \<in> set zs \<Longrightarrow> idKey w \<noteq> idKey v"
    by (metis imageI)
  then have "filter (\<lambda>w. idKey w = idKey v) zs = []"
    by (simp add: filter_empty_conv)
  then have "map_of (keyBy (ys @ v # zs)) (idKey v) = Some v"
    by (simp add: keyBy_lookup)
  then show ?thesis by (rule map_of_SomeD)
qed

lemma obj_delete_distinct: "distinct (map fst obj) \<Longrightarrow> distinct (map fst (obj_delete obj k))"
  unfolding obj_delete_def by (rule distinct_map_filter)

lemma obj_delete_rest:
  assumes "distinct (map fst obj)" and "map_of obj k = Some v"
  shows "set obj = insert (k, v) (set (obj_delete obj k))"
proof -
  have "p = (k, v)" if "p \<in> set obj" "fst p = k" for p
  proof -
    obtain a b where p: "p = (a, b)" by (cases p)
    with that have "(k, b) \<in> set obj" by simp
    with assms(1) have "map_of obj k = Some b" by simp
    with assms(2) have "b = v" by simp
    with p that(2) show ?thesis by simp
  qed
  moreover from assms(2) have "(k, v) \<in> set obj" by (rule map_of_SomeD)
  moreover have "set (obj_delete obj k) = {p \<in> set obj. fst p \<noteq> k}"
    by (simp add: obj_delete_def)
  ultimately show ?thesis by blast
qed

lemma replaceStored_general:
  assumes "\<forall>e\<in>set es. idKey e \<notin> set Object_prototype_keys"
    and "distinct (map fst obj)" and "length obj \<le> n"
    and "replaceStored es obj n = (es', obj', n')"
  shows "length obj' \<le> n' \<and> distinct (map fst obj')
       \<and> set obj \<subseteq> {p. snd p \<in> set es'} \<union> set obj'
       \<and> set obj' \<subseteq> set obj
       \<and> set es' \<subseteq> set es \<union> snd ` set obj"
  using assms
proof (induction es arbitrary: obj n es' obj' n')
  case Nil
  then show ?case by auto
next
  case (Cons e es)
  from Cons.prems(1) have plain: "idKey e \<notin> set Object_prototype_keys"
    and rest: "\<forall>e\<in>set es. idKey e \<notin> set Object_prototype_keys" by simp_all
  show ?case
  proof (cases "map_of obj (idKey e)")
    case None
    with plain have get: "(if 0 < n then obj_get obj (idKey e) else Undefined) = Undefined"
      by (simp add: obj_get_def)
    obtain es1 obj1 n1 where rs: "replaceStored es obj n = (es1, obj1, n1)"
      by (cases "replaceStored es obj n") auto
    from Cons.prems(4) get rs have eq: "es' = e # es1" "obj' = obj1" "n' = n1" by simp_all
    from Cons.IH[OF rest Cons.prems(2,3) rs] show ?thesis
      unfolding eq by auto
  next
    case (Some v)
    then have "obj \<noteq> []" by auto
    with Cons.prems(3) have n: "0 < n" by (cases obj) auto
    with Some have get: "(if 0 < n then obj_get obj (idKey e) else Undefined) = Own v"
      by (simp add: obj_get_def)
    obtain es1 obj1 n1 where rs: "replaceStored es (obj_delete obj (idKey e)) (n - 1) = (es1, obj1, n1)"
      by (cases "replaceStored es (obj_delete obj (idKey e)) (n - 1)") auto
    from Cons.prems(4) get rs have eq: "es' = v # es1" "obj' = obj1" "n' = n1" by simp_all
    from Some have "length (obj_delete obj (idKey e)) < length obj"
      by (intro length_obj_delete) simp
    with Cons.prems(3) have len: "length (obj_delete obj (idKey e)) \<le> n - 1" by simp
    note ih = Cons.IH[OF rest obj_delete_distinct[OF Cons.prems(2)] len rs]
    note split = obj_delete_rest[OF Cons.prems(2) Some]
    from ih show ?thesis
      unfolding eq split by auto
  qed
qed

lemma remainingEntities_set:
  assumes "distinct (map fst obj)"
  shows "set (remainingEntities obj) = snd ` set obj"
proof -
  from remainingEntities_perm[OF assms] have "set (remainingEntities obj) = set (map snd obj)"
    by (rule mset_eq_setD)
  then show ?thesis by simp
qed

lemma length_keyBy: "length (keyBy vs) \<le> length vs"
proof -
  have "length (obj_put obj k v) \<le> Suc (length obj)" for obj :: "jsval jsobj" and k v
    by (induction obj) auto
  then have "length (fold (\<lambda>v obj. obj_put obj (idKey v) v) ws acc) \<le> length acc + length ws" for ws acc
  proof (induction ws arbitrary: acc)
    case Nil then show ?case by simp
  next
    case (Cons w ws)
    have "length (fold (\<lambda>v obj. obj_put obj (idKey v) v) ws (obj_put acc (idKey w) w))
        \<le> length (obj_put acc (idKey w) w) + length ws"
      by (rule Cons.IH) (rule Cons.prems)
    also have "\<dots> \<le> Suc (length acc) + length ws"
      using Cons.prems[of acc "idKey w" w] by simp
    finally show ?case by simp
  qed
  from this[of vs "[]"] show ?thesis by (simp add: keyBy_def)
qed

lemma update_stores_the_input:
  assumes "\<forall>e\<in>set (priv_readAll appKey ps c). idKey e \<notin> set Object_prototype_keys"
  shows "snd ` set (keyBy vs) \<subseteq> set (priv_readAll appKey (snd (update appKey ps c vs)) c)
       \<and> set (priv_readAll appKey (snd (update appKey ps c vs)) c)
            \<subseteq> set (priv_readAll appKey ps c) \<union> set vs"
proof -
  define old where "old = priv_readAll appKey ps c"
  obtain es' obj' n' where rs: "replaceStored old (keyBy vs) (length vs) = (es', obj', n')"
    by (cases "replaceStored old (keyBy vs) (length vs)") auto
  from replaceStored_general[OF assms[folded old_def] keyBy_distinct_keys length_keyBy rs]
  have len: "length obj' \<le> n'" and d: "distinct (map fst obj')"
    and all: "set (keyBy vs) \<subseteq> {p. snd p \<in> set es'} \<union> set obj'"
    and sub: "set obj' \<subseteq> set (keyBy vs)"
    and from_old: "set es' \<subseteq> set old \<union> snd ` set (keyBy vs)"
    by simp_all
  have new: "priv_readAll appKey (snd (update appKey ps c vs)) c =
      (if 0 < n' then es' @ remainingEntities obj' else es')"
    using rs by (simp add: update_def priv_update_def readAll_saveAll old_def)
  have set_new: "set (priv_readAll appKey (snd (update appKey ps c vs)) c) = set es' \<union> snd ` set obj'"
  proof (cases "0 < n'")
    case True
    then show ?thesis unfolding new by (simp add: remainingEntities_set[OF d])
  next
    case False
    with len have "obj' = []" by simp
    with False show ?thesis unfolding new by simp
  qed
  have vals: "snd ` set (keyBy vs) \<subseteq> set vs"
  proof
    fix v assume "v \<in> snd ` set (keyBy vs)"
    then obtain k where "(k, v) \<in> set (keyBy vs)" by auto
    from keyBy_member[OF this] show "v \<in> set vs" by simp
  qed
  have 1: "snd ` set (keyBy vs) \<subseteq> set es' \<union> snd ` set obj'"
  proof
    fix v assume "v \<in> snd ` set (keyBy vs)"
    then obtain p where p: "p \<in> set (keyBy vs)" "v = snd p" by auto
    with all have "snd p \<in> set es' \<or> p \<in> set obj'" by blast
    with p(2) show "v \<in> set es' \<union> snd ` set obj'" by auto
  qed
  from sub have "snd ` set obj' \<subseteq> snd ` set (keyBy vs)" by (rule image_mono)
  with from_old vals have 2: "set es' \<union> snd ` set obj' \<subseteq> set old \<union> set vs"
    by blast
  from 1 2 show ?thesis unfolding set_new old_def[symmetric] by (rule conjI)
qed









lemma pull_deltaSet_unstamped:
  assumes "collection \<noteq> []" and "useDeltaSet options"
    and "deltaSet env collection query options = Inr response"
    and "stampCachedQuery env collection query True (requestStart response) st = (Inl err, st1)"
    and "err \<noteq> InvalidCachedQuery"
  shows "pull (Suc fuel) env appKey collection query options st = (Some (Inl err), st1)
       \<and> offline st1 = offline st"
  using assms stampCachedQuery_frame[OF assms(4)]
  by (simp add: pull_attempt_def pull_deltaSet_def)

lemma odd_store_update:
  "snd (update ''kid_1'' odd_store ''books'' [Entity book_c])
     = [(''kid_1.books'', [ProtoMember ''constructor''])]"
  by (simp add: update_def priv_update_def priv_readAll_def priv_saveAll_def persister_read_def
      persister_write_def priv_formCollectionKey_def keyBy_def idKey_def obj_get_def obj_delete_def
      Object_prototype_keys_def book_odd_def book_c_def odd_store_def)




text \<open>
  A regular pull whose read is answered with \<open>response\<close> resolves with the number of
  fetched entities. For a query with a skip or a limit the fetched entities are upserted
  into the offline collection as it is: the stored array does not get shorter, and a
  stored entity whose id is not among the fetched ids and does not name a member of
  \<^verbatim>\<open>Object.prototype\<close> keeps its place and its content. For a query without skip and
  limit, and without a query, the upsert follows \<^verbatim>\<open>delete(collection, query)\<close>.
\<close>

lemma pull_regular_plain_ids:
  assumes "collection \<noteq> []" and "\<not> useDeltaSet options" and "autoPagination options = None"
    and "network_read env collection query = Inr response"
    and "stampCachedQuery env collection query (response_has_headers response)
           (response_requestStart response) st = (Inr (), st1)"
  shows "pull (Suc fuel) env appKey collection query options st =
      (Some (Inr (length (response_data response))),
       st1\<lparr>offline :=
             snd (update appKey
                   (if (case query of Some q \<Rightarrow> hasSkip q \<or> hasLimit q | None \<Rightarrow> False)
                    then offline st
                    else snd (delete appKey (offline st) collection query))
                   collection (map Entity (response_data response)))\<rparr>)
    \<and> ((case query of Some q \<Rightarrow> hasSkip q \<or> hasLimit q | None \<Rightarrow> False) \<longrightarrow>
         length (priv_readAll appKey (offline st) collection)
           \<le> length (priv_readAll appKey
                 (offline (snd (pull (Suc fuel) env appKey collection query options st))) collection)
         \<and> (\<forall>i<length (priv_readAll appKey (offline st) collection).
               idKey (priv_readAll appKey (offline st) collection ! i) \<notin> set Object_prototype_keys
               \<and> idKey (priv_readAll appKey (offline st) collection ! i)
                    \<notin> idKey ` set (map Entity (response_data response))
               \<longrightarrow> priv_readAll appKey
                     (offline (snd (pull (Suc fuel) env appKey collection query options st)))
                     collection ! i
                   = priv_readAll appKey (offline st) collection ! i))"
proof -
  from stampCachedQuery_frame[OF assms(5)] have off: "offline st1 = offline st" by simp
  have reg: "pull_regular env appKey collection query st =
      (Inr (length (response_data response)),
       st1\<lparr>offline :=
             snd (update appKey
                   (if (case query of Some q \<Rightarrow> hasSkip q \<or> hasLimit q | None \<Rightarrow> False)
                    then offline st
                    else snd (delete appKey (offline st) collection query))
                   collection (map Entity (response_data response)))\<rparr>)"
    using assms(4,5) off
    by (simp add: pull_regular_def priv_replaceOfflineEntities_def priv_deleteOfflineEntities_def
        update_def Let_def)
  with assms(1,2,3) have p: "pull (Suc fuel) env appKey collection query options st =
      (Some (Inr (length (response_data response))),
       st1\<lparr>offline :=
             snd (update appKey
                   (if (case query of Some q \<Rightarrow> hasSkip q \<or> hasLimit q | None \<Rightarrow> False)
                    then offline st
                    else snd (delete appKey (offline st) collection query))
                   collection (map Entity (response_data response)))\<rparr>)"
    by (simp add: pull_attempt_def)
  show ?thesis
    unfolding p using update_frame[of appKey "offline st" collection "map Entity (response_data response)"]
    by simp
qed

lemma pull_regular_plain_ids_example:
  "fst (pull (Suc 0) ref_env ''kid_1'' ''books'' (Some (new_Query\<lparr>limit_q := Some 1\<rparr>))
          \<lparr>useDeltaSet = False, autoPagination = None\<rparr> idle_state) = Some (Inr 1)
   \<and> priv_readAll ''kid_1''
        (offline (snd (pull (Suc 0) ref_env ''kid_1'' ''books'' (Some (new_Query\<lparr>limit_q := Some 1\<rparr>))
          \<lparr>useDeltaSet = False, autoPagination = None\<rparr> idle_state))) ''books'' ! 1
       = Entity book_b"
proof -
  let ?q = "Some (new_Query\<lparr>limit_q := Some 1\<rparr>)"
  let ?options = "\<lparr>useDeltaSet = False, autoPagination = None\<rparr>"
  let ?response = "KinveyResponse (Some ''2018-06-01T10:00:00.000Z'') [book_c]"
  have c: "''books'' \<noteq> []" by simp
  have u: "\<not> useDeltaSet ?options" by simp
  have p: "autoPagination ?options = None" by simp
  have r: "network_read ref_env ''books'' ?q = Inr ?response"
    by (simp add: ref_env_fields)
  have s: "stampCachedQuery ref_env ''books'' ?q (response_has_headers ?response)
        (response_requestStart ?response) idle_state
      = (Inr (), idle_state\<lparr>queryCache := [(''books'', Some ''2018-06-01T10:00:00.000Z'')]\<rparr>)"
    by (simp add: stampCachedQuery_def ref_env_fields ref_getCachedQuery_def ref_updateCachedQuery_def
        idle_fields)
  have b: "(case ?q of Some q \<Rightarrow> hasSkip q \<or> hasLimit q | None \<Rightarrow> False)"
    by (simp add: hasLimit_def new_Query_def)
  have old: "priv_readAll ''kid_1'' (offline idle_state) ''books'' = [Entity book_a, Entity book_b]"
    by (simp add: idle_fields books_store_def priv_readAll_def persister_read_def priv_formCollectionKey_def)
  have k: "idKey (Entity book_b) \<notin> set Object_prototype_keys
      \<and> idKey (Entity book_b) \<notin> idKey ` set (map Entity (response_data ?response))"
    by (simp add: idKey_def book_b_def book_c_def Object_prototype_keys_def)
  note T = pull_regular_plain_ids[OF c u p r s, where appKey = "''kid_1''" and fuel = 0]
  from T have 1: "fst (pull (Suc 0) ref_env ''kid_1'' ''books'' ?q ?options idle_state) = Some (Inr 1)"
    by simp
  from T b have "\<forall>i<length (priv_readAll ''kid_1'' (offline idle_state) ''books'').
               idKey (priv_readAll ''kid_1'' (offline idle_state) ''books'' ! i) \<notin> set Object_prototype_keys
               \<and> idKey (priv_readAll ''kid_1'' (offline idle_state) ''books'' ! i)
                    \<notin> idKey ` set (map Entity (response_data ?response))
               \<longrightarrow> priv_readAll ''kid_1''
                     (offline (snd (pull (Suc 0) ref_env ''kid_1'' ''books'' ?q ?options idle_state)))
                     ''books'' ! i
                   = priv_readAll ''kid_1'' (offline idle_state) ''books'' ! i"
    by blast
  then have "1 < length [Entity book_a, Entity book_b] \<and> idKey ([Entity book_a, Entity book_b] ! 1) \<notin> set Object_prototype_keys
               \<and> idKey ([Entity book_a, Entity book_b] ! 1)
                    \<notin> idKey ` set (map Entity (response_data ?response))
               \<longrightarrow> priv_readAll ''kid_1''
                     (offline (snd (pull (Suc 0) ref_env ''kid_1'' ''books'' ?q ?options idle_state)))
                     ''books'' ! 1
                   = [Entity book_a, Entity book_b] ! 1"
    unfolding old by blast
  with k have 2: "priv_readAll ''kid_1''
                     (offline (snd (pull (Suc 0) ref_env ''kid_1'' ''books'' ?q ?options idle_state)))
                     ''books'' ! 1 = Entity book_b"
    by simp
  from 1 2 show ?thesis by (rule conjI)
qed

text \<open>
  For a query with a skip or a limit and an offline collection without such ids: every
  fetched entity is stored afterwards (of several with the same \<^verbatim>\<open>_id\<close>, the last), the
  stored array does not get shorter, every stored entity that was not fetched keeps its
  place and content, and nothing but fetched entities is added.
\<close>

lemma pull_bounded_query_plain_ids:
  assumes "collection \<noteq> []" and "\<not> useDeltaSet options" and "autoPagination options = None"
    and "network_read env collection (Some q) = Inr response"
    and "stampCachedQuery env collection (Some q) (response_has_headers response)
           (response_requestStart response) st = (Inr (), st1)"
    and "hasSkip q \<or> hasLimit q"
    and "\<forall>v\<in>set (priv_readAll appKey (offline st) collection). idKey v \<notin> set Object_prototype_keys"
  shows "\<exists>st2. pull (Suc fuel) env appKey collection (Some q) options st
                = (Some (Inr (length (response_data response))), st2)
       \<and> (\<forall>ys e zs. response_data response = ys @ e # zs
              \<and> idKey (Entity e) \<notin> idKey ` Entity ` set zs
              \<longrightarrow> Entity e \<in> set (priv_readAll appKey (offline st2) collection))
       \<and> length (priv_readAll appKey (offline st) collection)
            \<le> length (priv_readAll appKey (offline st2) collection)
       \<and> (\<forall>i<length (priv_readAll appKey (offline st) collection).
              idKey (priv_readAll appKey (offline st) collection ! i)
                \<notin> idKey ` Entity ` set (response_data response)
              \<longrightarrow> priv_readAll appKey (offline st2) collection ! i
                  = priv_readAll appKey (offline st) collection ! i)
       \<and> set (priv_readAll appKey (offline st2) collection)
            \<subseteq> set (priv_readAll appKey (offline st) collection)
               \<union> Entity ` set (response_data response)"
proof -
  let ?data = "map Entity (response_data response)"
  define ps2 where "ps2 = snd (update appKey (offline st) collection ?data)"
  from assms(6) have b: "(case Some q of Some q \<Rightarrow> hasSkip q \<or> hasLimit q | None \<Rightarrow> False)"
    by simp
  from pull_regular_plain_ids[OF assms(1-5), where appKey = appKey and fuel = fuel] b
  have p: "pull (Suc fuel) env appKey collection (Some q) options st =
      (Some (Inr (length (response_data response))), st1\<lparr>offline := ps2\<rparr>)"
    by (simp add: ps2_def)
  have o: "offline (st1\<lparr>offline := ps2\<rparr>) = ps2" by simp
  note up = update_stores_the_input[OF assms(7), of ?data, folded ps2_def]
  have 1: "\<forall>ys e zs. response_data response = ys @ e # zs
              \<and> idKey (Entity e) \<notin> idKey ` Entity ` set zs
              \<longrightarrow> Entity e \<in> set (priv_readAll appKey ps2 collection)"
  proof (intro allI impI, elim conjE)
    fix ys e zs
    assume eq: "response_data response = ys @ e # zs"
      and last: "idKey (Entity e) \<notin> idKey ` Entity ` set zs"
    from last have "idKey (Entity e) \<notin> idKey ` set (map Entity zs)" by (simp add: image_image)
    from keyBy_last[OF this, of "map Entity ys"]
    have "(idKey (Entity e), Entity e) \<in> set (keyBy ?data)"
      unfolding eq by simp
    then have "Entity e \<in> snd ` set (keyBy ?data)" by (metis imageI snd_conv)
    with up show "Entity e \<in> set (priv_readAll appKey ps2 collection)" by blast
  qed
  note fr = update_frame[of appKey "offline st" collection ?data, folded ps2_def]
  from fr have 2: "length (priv_readAll appKey (offline st) collection)
            \<le> length (priv_readAll appKey ps2 collection)"
    by (rule conjunct1)
  have 3: "\<forall>i<length (priv_readAll appKey (offline st) collection).
              idKey (priv_readAll appKey (offline st) collection ! i)
                \<notin> idKey ` Entity ` set (response_data response)
              \<longrightarrow> priv_readAll appKey ps2 collection ! i
                  = priv_readAll appKey (offline st) collection ! i"
  proof (intro allI impI)
    fix i
    assume i: "i < length (priv_readAll appKey (offline st) collection)"
      and k: "idKey (priv_readAll appKey (offline st) collection ! i)
                \<notin> idKey ` Entity ` set (response_data response)"
    from i have "priv_readAll appKey (offline st) collection ! i
        \<in> set (priv_readAll appKey (offline st) collection)" by simp
    with assms(7) have "idKey (priv_readAll appKey (offline st) collection ! i)
        \<notin> set Object_prototype_keys" by blast
    moreover from k have "idKey (priv_readAll appKey (offline st) collection ! i)
        \<notin> idKey ` set ?data" by (simp add: image_image)
    ultimately show "priv_readAll appKey ps2 collection ! i
                  = priv_readAll appKey (offline st) collection ! i"
      using fr i by blast
  qed
  from up have 4: "set (priv_readAll appKey ps2 collection)
            \<subseteq> set (priv_readAll appKey (offline st) collection)
               \<union> Entity ` set (response_data response)"
    by simp
  show ?thesis
    apply (rule exI[of _ "st1\<lparr>offline := ps2\<rparr>"])
    unfolding o
    using p 1 2 3 4 by (intro conjI)
qed

text \<open>
  C6. The claim fails for an offline entity whose \<^verbatim>\<open>_id\<close> is the name of a member of
  \<^verbatim>\<open>Object.prototype\<close>. The offline collection holds one entity, with the id
  \<^verbatim>\<open>constructor\<close>; a regular pull with a limit fetches one entity with another id. The
  pull resolves with 1, the stored entity (which was not fetched) is overwritten with the
  inherited member, and the fetched entity is not stored: the defect of \<^verbatim>\<open>_update\<close>
  shown for C10. (For offline ids that name no such member the claim holds:
  \<open>pull_bounded_query_plain_ids\<close>.)
\<close>

theorem pull_bounded_query_overwrites_inherited_id:
  "priv_readAll ''kid_1'' odd_store ''books'' = [Entity book_odd]
   \<and> hasLimit (new_Query\<lparr>limit_q := Some 1\<rparr>)
   \<and> network_read ref_env ''books'' (Some (new_Query\<lparr>limit_q := Some 1\<rparr>))
       = Inr (KinveyResponse (Some ''2018-06-01T10:00:00.000Z'') [book_c])
   \<and> pull (Suc 0) ref_env ''kid_1'' ''books'' (Some (new_Query\<lparr>limit_q := Some 1\<rparr>))
        \<lparr>useDeltaSet = False, autoPagination = None\<rparr> (idle_state\<lparr>offline := odd_store\<rparr>)
       = (Some (Inr 1),
          idle_state\<lparr>offline := [(''kid_1.books'', [ProtoMember ''constructor''])],
                     queryCache := [(''books'', Some ''2018-06-01T10:00:00.000Z'')]\<rparr>)"
proof -
  let ?q = "Some (new_Query\<lparr>limit_q := Some 1\<rparr>)"
  have 1: "priv_readAll ''kid_1'' odd_store ''books'' = [Entity book_odd]"
    by (simp add: odd_store_def priv_readAll_def persister_read_def priv_formCollectionKey_def)
  have 2: "hasLimit (new_Query\<lparr>limit_q := Some 1\<rparr>)"
    by (simp add: hasLimit_def new_Query_def)
  have 3: "network_read ref_env ''books'' ?q
       = Inr (KinveyResponse (Some ''2018-06-01T10:00:00.000Z'') [book_c])"
    by (simp add: ref_env_fields)
  have s: "stampCachedQuery ref_env ''books'' ?q True (Some ''2018-06-01T10:00:00.000Z'')
        (idle_state\<lparr>offline := odd_store\<rparr>)
      = (Inr (), idle_state\<lparr>offline := odd_store,
                            queryCache := [(''books'', Some ''2018-06-01T10:00:00.000Z'')]\<rparr>)"
    by (simp add: stampCachedQuery_def ref_env_fields ref_getCachedQuery_def ref_updateCachedQuery_def
        idle_state_def)
  have u: "update ''kid_1'' odd_store ''books'' [Entity book_c]
      = (Inr [Entity book_c], [(''kid_1.books'', [ProtoMember ''constructor''])])"
    using odd_store_update by (simp add: update_def)
  have 4: "pull (Suc 0) ref_env ''kid_1'' ''books'' ?q
        \<lparr>useDeltaSet = False, autoPagination = None\<rparr> (idle_state\<lparr>offline := odd_store\<rparr>)
       = (Some (Inr 1),
          idle_state\<lparr>offline := [(''kid_1.books'', [ProtoMember ''constructor''])],
                     queryCache := [(''books'', Some ''2018-06-01T10:00:00.000Z'')]\<rparr>)"
    using 2 3 s u
    by (simp add: pull_attempt_def pull_regular_def priv_replaceOfflineEntities_def idle_state_def)
  from 1 2 3 4 show ?thesis by (intro conjI)
qed

text \<open>
  C4. When the delta-set request of a pull fails with InvalidCachedQuery, the
  CachedQuery of the (collection, query) pair is read and deleted, and the result of the
  pull is the result of \<^verbatim>\<open>pull\<close> with \<^verbatim>\<open>useDeltaSet\<close> set to false, in the state after
  the deletion; a NotFound from reading or deleting the CachedQuery is ignored, any other
  error from there rejects the pull. An error of a pull attempt other than
  InvalidCachedQuery rejects the pull with that error.
\<close>

theorem pull_stale_deltaSet_is_retried:
  assumes "collection \<noteq> []" and "useDeltaSet options"
    and "deltaSet env collection query options = Inl InvalidCachedQuery"
  shows "(\<forall>cq qc qc'. getCachedQuery env collection query (queryCache st) = Inr (cq, qc)
            \<and> deleteCachedQuery env cq qc = Inr qc' \<longrightarrow>
          pull (Suc fuel) env appKey collection query options st =
            pull fuel env appKey collection query (options\<lparr>useDeltaSet := False\<rparr>)
              (st\<lparr>queryCache := qc'\<rparr>))
     \<and> (getCachedQuery env collection query (queryCache st) = Inl NotFoundError
          \<or> (\<exists>cq qc. getCachedQuery env collection query (queryCache st) = Inr (cq, qc)
                \<and> deleteCachedQuery env cq qc = Inl NotFoundError) \<longrightarrow>
          pull (Suc fuel) env appKey collection query options st =
            pull fuel env appKey collection query (options\<lparr>useDeltaSet := False\<rparr>) st)
     \<and> (\<forall>e. e \<noteq> NotFoundError
            \<and> (getCachedQuery env collection query (queryCache st) = Inl e
               \<or> (\<exists>cq qc. getCachedQuery env collection query (queryCache st) = Inr (cq, qc)
                     \<and> deleteCachedQuery env cq qc = Inl e)) \<longrightarrow>
          pull (Suc fuel) env appKey collection query options st = (Some (Inl e), st))
     \<and> (\<forall>err st'. pull_attempt env appKey collection query options0 st0 = (Inl err, st')
            \<and> err \<noteq> InvalidCachedQuery \<longrightarrow>
          pull (Suc fuel) env appKey collection query options0 st0 = (Some (Inl err), st'))"
proof -
  from assms have a: "pull_attempt env appKey collection query options st = (Inl InvalidCachedQuery, st)"
    by (simp add: pull_attempt_def pull_deltaSet_def)
  show ?thesis
    by (auto simp: a)
qed

theorem pull_stale_deltaSet_is_retried_witness:
  "pull (Suc (Suc 0)) stale_env ''kid_1'' ''books'' None \<lparr>useDeltaSet = True, autoPagination = None\<rparr> idle_state
     = pull (Suc 0) stale_env ''kid_1'' ''books'' None \<lparr>useDeltaSet = False, autoPagination = None\<rparr>
         (idle_state\<lparr>queryCache := []\<rparr>)
   \<and> pull (Suc (Suc 0)) stale_env ''kid_1'' ''books'' None \<lparr>useDeltaSet = True, autoPagination = None\<rparr>
         (idle_state\<lparr>queryCache := []\<rparr>)
     = pull (Suc 0) stale_env ''kid_1'' ''books'' None \<lparr>useDeltaSet = False, autoPagination = None\<rparr>
         (idle_state\<lparr>queryCache := []\<rparr>)
   \<and> fst (pull (Suc 0) stale_env ''kid_1'' ''books'' None \<lparr>useDeltaSet = False, autoPagination = None\<rparr>
         (idle_state\<lparr>queryCache := []\<rparr>)) = Some (Inr 1)"
proof -
  let ?options = "\<lparr>useDeltaSet = True, autoPagination = None\<rparr>"
  let ?cleared = "idle_state\<lparr>queryCache := []\<rparr>"
  have c: "''books'' \<noteq> []" by simp
  have u: "useDeltaSet ?options" by simp
  have d: "deltaSet stale_env ''books'' None ?options = Inl InvalidCachedQuery"
    by (simp add: stale_env_def)
  have g: "getCachedQuery stale_env ''books'' None (queryCache idle_state)
      = Inr (Some (''books'', Some ''2018-05-01T10:00:00.000Z''), [(''books'', Some ''2018-05-01T10:00:00.000Z'')])"
    by (simp add: stale_env_def ref_env_fields ref_getCachedQuery_def idle_fields)
  have e: "deleteCachedQuery stale_env (Some (''books'', Some ''2018-05-01T10:00:00.000Z''))
       [(''books'', Some ''2018-05-01T10:00:00.000Z'')] = Inr []"
    by (simp add: stale_env_def ref_env_fields ref_deleteCachedQuery_def)
  have g': "getCachedQuery stale_env ''books'' None (queryCache ?cleared) = Inr (None, [])"
    by (simp add: stale_env_def ref_env_fields ref_getCachedQuery_def)
  have e': "deleteCachedQuery stale_env None [] = Inl NotFoundError"
    by (simp add: stale_env_def ref_env_fields ref_deleteCachedQuery_def)
  note T = pull_stale_deltaSet_is_retried[OF c u d, where st = idle_state and fuel = "Suc 0" and appKey = "''kid_1''"]
  note T' = pull_stale_deltaSet_is_retried[OF c u d, where st = ?cleared and fuel = "Suc 0" and appKey = "''kid_1''"]
  from T have "\<forall>cq qc qc'. getCachedQuery stale_env ''books'' None (queryCache idle_state) = Inr (cq, qc)
            \<and> deleteCachedQuery stale_env cq qc = Inr qc' \<longrightarrow>
          pull (Suc (Suc 0)) stale_env ''kid_1'' ''books'' None ?options idle_state =
            pull (Suc 0) stale_env ''kid_1'' ''books'' None (?options\<lparr>useDeltaSet := False\<rparr>)
              (idle_state\<lparr>queryCache := qc'\<rparr>)"
    by (rule conjunct1)
  with g e have "pull (Suc (Suc 0)) stale_env ''kid_1'' ''books'' None ?options idle_state =
            pull (Suc 0) stale_env ''kid_1'' ''books'' None (?options\<lparr>useDeltaSet := False\<rparr>) ?cleared"
    by blast
  then have 1: "pull (Suc (Suc 0)) stale_env ''kid_1'' ''books'' None ?options idle_state =
            pull (Suc 0) stale_env ''kid_1'' ''books'' None \<lparr>useDeltaSet = False, autoPagination = None\<rparr> ?cleared"
    by simp
  from T' have "getCachedQuery stale_env ''books'' None (queryCache ?cleared) = Inl NotFoundError
          \<or> (\<exists>cq qc. getCachedQuery stale_env ''books'' None (queryCache ?cleared) = Inr (cq, qc)
                \<and> deleteCachedQuery stale_env cq qc = Inl NotFoundError) \<longrightarrow>
          pull (Suc (Suc 0)) stale_env ''kid_1'' ''books'' None ?options ?cleared =
            pull (Suc 0) stale_env ''kid_1'' ''books'' None (?options\<lparr>useDeltaSet := False\<rparr>) ?cleared"
    by (rule conjunct2[THEN conjunct1])
  with g' e' have "pull (Suc (Suc 0)) stale_env ''kid_1'' ''books'' None ?options ?cleared =
            pull (Suc 0) stale_env ''kid_1'' ''books'' None (?options\<lparr>useDeltaSet := False\<rparr>) ?cleared"
    by blast
  then have 2: "pull (Suc (Suc 0)) stale_env ''kid_1'' ''books'' None ?options ?cleared =
            pull (Suc 0) stale_env ''kid_1'' ''books'' None \<lparr>useDeltaSet = False, autoPagination = None\<rparr> ?cleared"
    by simp
  have r: "network_read stale_env ''books'' None = Inr (KinveyResponse (Some ''2018-06-01T10:00:00.000Z'') [book_c])"
    by (simp add: stale_env_def ref_env_fields)
  have s: "stampCachedQuery stale_env ''books'' None True (Some ''2018-06-01T10:00:00.000Z'') ?cleared
      = (Inr (), ?cleared)"
    by (simp add: stampCachedQuery_def stale_env_def ref_env_fields ref_getCachedQuery_def)
  have "fst (pull_regular stale_env ''kid_1'' ''books'' None ?cleared) = Inr 1"
    using r s
    by (simp add: pull_regular_def priv_replaceOfflineEntities_def update_def Let_def)
  then obtain st1 where "pull_regular stale_env ''kid_1'' ''books'' None ?cleared = (Inr 1, st1)"
    by (cases "pull_regular stale_env ''kid_1'' ''books'' None ?cleared") simp
  then have 3: "fst (pull (Suc 0) stale_env ''kid_1'' ''books'' None \<lparr>useDeltaSet = False, autoPagination = None\<rparr>
         ?cleared) = Some (Inr 1)"
    by (simp add: pull_attempt_def)
  from 1 2 3 show ?thesis by (intro conjI)
qed

subsection \<open>KinveyRequest.execute\<close>

lemma execute_unauthorized_token_request_does_not_settle:
  assumes "checked_response rawResponse answer = Inl InvalidCredentialsError"
    and "\<not> queue_paused st" and "hasSession"
    and "checked_response False tokenAnswer = Inl InvalidCredentialsError"
  shows "execute (Request (answer # answers) False
            (Some (RefreshScript (Request (tokenAnswer # tokenAnswers) tokenRetry tokenScript)
                     login activeUserError)))
           hasSession rawResponse True st =
      (None, st\<lparr>queue_paused := True, isRefreshing := True, queued := Suc (queued st)\<rparr>)"
  using assms by simp

lemma execute_unauthorized_login_request_does_not_settle:
  assumes "checked_response rawResponse answer = Inl InvalidCredentialsError"
    and "\<not> queue_paused st" and "hasSession"
    and "checked_response False tokenAnswer = Inr session"
    and "checked_response False loginAnswer = Inl InvalidCredentialsError"
  shows "execute (Request (answer # answers) False
            (Some (RefreshScript (Request (tokenAnswer # tokenAnswers) tokenRetry tokenScript)
                     (Request (loginAnswer # loginAnswers) loginRetry loginScript)
                     activeUserError)))
           hasSession rawResponse True st =
      (None, st\<lparr>queue_paused := True, isRefreshing := True, queued := Suc (queued st)\<rparr>)"
  using assms by simp

lemma execute_unauthorized_token_request_example:
  "execute find_with_rejected_client True False True idle_request =
     (None, idle_request\<lparr>queue_paused := True, isRefreshing := True, queued := 1\<rparr>)"
  by (simp add: find_with_rejected_client_def checked_response_def unauthorized_def idle_request_def)

text \<open>
  C7, as the code has it. The first execution fails with InvalidCredentials while the
  request queue runs, a retry is allowed and the active user has a session to refresh.
  The refresh fails: the token request is answered with an error other than
  InvalidCredentials, or it succeeds and the login request is answered with such an error,
  or both succeed and \<^verbatim>\<open>setActiveUser\<close> rejects. Then the promise of \<^verbatim>\<open>execute\<close> is
  fulfilled with the InvalidCredentials error object of the first execution
  (\<^verbatim>\<open>Promise.resolve(error)\<close>); an InvalidCredentials error is sent to
  \<^verbatim>\<open>refreshUserSubject\<close> and the queue is started again. (A token or login request that
  is itself answered with InvalidCredentials is added to the queue that was just paused,
  and the promise does not settle: \<open>execute_unauthorized_token_request_does_not_settle\<close>,
  \<open>execute_unauthorized_login_request_does_not_settle\<close>.)
\<close>

theorem execute_refresh_failure_resolves_with_the_error:
  assumes "checked_response rawResponse answer = Inl InvalidCredentialsError"
    and "\<not> queue_paused st" and "hasSession"
    and "(\<exists>err. checked_response False tokenAnswer = Inl err \<and> err \<noteq> InvalidCredentialsError)
       \<or> (\<exists>session. checked_response False tokenAnswer = Inr session
             \<and> (\<exists>loginAnswer loginAnswers loginRetry loginScript.
                   login = Request (loginAnswer # loginAnswers) loginRetry loginScript
                   \<and> ((\<exists>err. checked_response False loginAnswer = Inl err
                              \<and> err \<noteq> InvalidCredentialsError)
                      \<or> (\<exists>user. checked_response False loginAnswer = Inr user
                              \<and> activeUserError \<noteq> None))))"
  shows "\<exists>st'. execute (Request (answer # answers) False
                  (Some (RefreshScript (Request (tokenAnswer # tokenAnswers) tokenRetry tokenScript)
                           login activeUserError)))
                 hasSession rawResponse True st =
              (Some (Inr (ErrorObject InvalidCredentialsError)), st')
       \<and> subject_errors st' = subject_errors st @ [InvalidCredentialsError]
       \<and> \<not> queue_paused st' \<and> \<not> isRefreshing st' \<and> queued st' = queued st"
proof -
  let ?request = "Request (answer # answers) False
      (Some (RefreshScript (Request (tokenAnswer # tokenAnswers) tokenRetry tokenScript)
               login activeUserError))"
  let ?failed = "st\<lparr>queue_paused := False, isRefreshing := False,
                     subject_errors := subject_errors st @ [InvalidCredentialsError]\<rparr>"
  from assms(4) consider
    (token) err where "checked_response False tokenAnswer = Inl err" "err \<noteq> InvalidCredentialsError"
  | (login) session loginAnswer loginAnswers loginRetry loginScript err where
      "checked_response False tokenAnswer = Inr session"
      "login = Request (loginAnswer # loginAnswers) loginRetry loginScript"
      "checked_response False loginAnswer = Inl err" "err \<noteq> InvalidCredentialsError"
  | (user) session loginAnswer loginAnswers loginRetry loginScript user err where
      "checked_response False tokenAnswer = Inr session"
      "login = Request (loginAnswer # loginAnswers) loginRetry loginScript"
      "checked_response False loginAnswer = Inr user" "activeUserError = Some err"
    by blast
  then show ?thesis
  proof cases
    case token
    with assms(1,2,3) have "execute ?request hasSession rawResponse True st =
        (Some (Inr (ErrorObject InvalidCredentialsError)), ?failed)"
      by (simp add: refresh_failed_def)
    then show ?thesis by simp
  next
    case login
    with assms(1,2,3) have "execute ?request hasSession rawResponse True st =
        (Some (Inr (ErrorObject InvalidCredentialsError)), ?failed)"
      by (simp add: refresh_failed_def)
    then show ?thesis by simp
  next
    case user
    with assms(1,2,3) have "execute ?request hasSession rawResponse True st =
        (Some (Inr (ErrorObject InvalidCredentialsError)),
         ?failed\<lparr>subject_users := Suc (subject_users st)\<rparr>)"
      by (simp add: refresh_failed_def)
    then show ?thesis by simp
  qed
qed

theorem execute_refresh_failure_resolves_with_the_error_witness:
  "\<exists>st'. execute find_with_expired_session True False True idle_request =
           (Some (Inr (ErrorObject InvalidCredentialsError)), st')
     \<and> subject_errors st' = [InvalidCredentialsError] \<and> \<not> queue_paused st'"
proof -
  have a: "checked_response False (Inr unauthorized) = Inl InvalidCredentialsError"
    by (simp add: checked_response_def unauthorized_def)
  have b: "\<not> queue_paused idle_request" "True"
    by (simp_all add: idle_request_def)
  have t: "checked_response False (Inr invalid_grant) = Inl (OtherError ''InvalidGrantError'')"
    by (simp add: checked_response_def invalid_grant_def)
  have c: "(\<exists>err. checked_response False (Inr invalid_grant) = Inl err \<and> err \<noteq> InvalidCredentialsError)
       \<or> (\<exists>session. checked_response False (Inr invalid_grant) = Inr session
             \<and> (\<exists>loginAnswer loginAnswers loginRetry loginScript.
                   Request [] False None = Request (loginAnswer # loginAnswers) loginRetry loginScript
                   \<and> ((\<exists>err. checked_response False loginAnswer = Inl err
                              \<and> err \<noteq> InvalidCredentialsError)
                      \<or> (\<exists>user. checked_response False loginAnswer = Inr user
                              \<and> (None :: kerror option) \<noteq> None))))"
    using t by simp
  from execute_refresh_failure_resolves_with_the_error[OF a b c, where answers = "[]"
      and tokenAnswers = "[]" and tokenRetry = False and tokenScript = None]
  obtain st' where
    "execute (Request [Inr unauthorized] False
        (Some (RefreshScript (Request [Inr invalid_grant] False None) (Request [] False None) None)))
       True False True idle_request = (Some (Inr (ErrorObject InvalidCredentialsError)), st')"
    "subject_errors st' = subject_errors idle_request @ [InvalidCredentialsError]"
    "\<not> queue_paused st'"
    apply (elim exE conjE)
    subgoal for st'
      by (rule that[of st']) assumption+
    done
  then show ?thesis
    by (intro exI[of _ st']) (simp add: find_with_expired_session_def idle_request_def)
qed

text \<open>
  C7 at a concrete input: the request is answered with 401, the token request with an
  invalid grant. The promise is fulfilled with the error object, it is not rejected with
  InvalidCredentials.
\<close>

theorem execute_refresh_failure_is_not_rejected:
  "fst (execute find_with_expired_session True False True idle_request)
     = Some (Inr (ErrorObject InvalidCredentialsError))
   \<and> fst (execute find_with_expired_session True False True idle_request)
     \<noteq> Some (Inl InvalidCredentialsError)"
  by (simp add: find_with_expired_session_def checked_response_def unauthorized_def invalid_grant_def
      idle_request_def refresh_failed_def)


end
